theory Spec2Isabelle
  imports Main "HOL-Library.Word"
begin

section \<open>The task scheduler of common/sched.c\<close>

text \<open>
  The embedding follows \<^verbatim>\<open>src/common/sched.c\<close> function by function. Task objects, processors
  and stack pages live at addresses; a nullable C pointer is an \<open>option\<close>. Everything the
  scheduler does beyond updating its own data (printing, taking a queue lock, calling the task's
  function, allocating and releasing memory) is appended to a history of events, in program
  order, so that properties such as "released exactly once" can be read off a run.

  The model is that of one processor executing the code with nobody else writing to the data:
  a busy-wait on a condition that does not hold at entry never ends (\<open>SPIN_FOREVER\<close>).
  \<open>dprintk\<close> is the debug-build trace macro and prints nothing here; \<open>smp_mb\<close>, \<open>smp_rmb\<close>
  and \<open>cpu_relax\<close> have no effect on the data. Dereferencing a null or dangling pointer is
  the error \<open>NULL_DEREF\<close>; a failed \<open>ASSERT\<close> and \<open>BUG()\<close> halt the system.
\<close>

subsection \<open>Data\<close>

type_synonym ptr = nat

text \<open>
  Modelled from the spec: \<open>enum task_state\<close> is declared in \<^verbatim>\<open>sched.h\<close>, which is not among
  the sources; \<^verbatim>\<open>sched.c\<close> names its five enumerators and the spec gives their order,
  NEW < READY < SCHEDULED < RUNNING < DONE.
\<close>

datatype task_state =
    TASK_STATE_NEW
  | TASK_STATE_READY
  | TASK_STATE_SCHEDULED
  | TASK_STATE_RUNNING
  | TASK_STATE_DONE

text \<open>The enumerators in declaration order, as \<open>get_task_state(task) <= TASK_STATE_READY\<close> compares them.\<close>

fun state_num :: "task_state \<Rightarrow> nat" where
  "state_num TASK_STATE_NEW = 0"
| "state_num TASK_STATE_READY = 1"
| "state_num TASK_STATE_SCHEDULED = 2"
| "state_num TASK_STATE_RUNNING = 3"
| "state_num TASK_STATE_DONE = 4"

text \<open>The two task types that \<^verbatim>\<open>sched.c\<close> tells apart.\<close>

datatype task_type = TASK_TYPE_KERNEL | TASK_TYPE_USER

text \<open>
  \<open>struct task\<close>, with the fields that \<^verbatim>\<open>sched.c\<close> reads and writes and the widths that its
  format strings give them: \<open>%u\<close> for the id and the repeat count, \<open>%lu\<close> for the 64-bit
  atomic execution counter. The list linkage \<open>task->list\<close> is the position in a processor's
  \<open>task_queue\<close>.
\<close>

record task_t =
  task_id :: "32 word"
  gid :: "32 word"
  type :: task_type
  state :: task_state
  repeat :: "32 word"
  exec_count :: "64 word"
  cpu :: "ptr option"
  stack :: "ptr option"
  name :: string
  func :: ptr
  arg :: ptr
  result :: "64 word"

record cpu_t =
  cpu_id :: "32 word"
  task_queue :: "ptr list"

datatype message =
    MSG_INIT_TASKS
  | MSG_WARN_NO_CPU string
  | MSG_SCHEDULING "32 word" string "32 word" "32 word"
  | MSG_RUNNING "32 word" string "32 word"
  | MSG_FINISHED task_type string "32 word" "64 word" "64 word"

datatype event =
    EV_PRINTK message
  | EV_STATE ptr task_state task_state
  | EV_CALL ptr
  | EV_LOCK ptr
  | EV_UNLOCK ptr
  | EV_KZALLOC ptr
  | EV_KFREE ptr
  | EV_GET_PAGE "ptr option"
  | EV_PUT_PAGE ptr

record sched =
  next_tid :: "32 word"
  tasks :: "ptr \<rightharpoonup> task_t"
  cpus :: "ptr \<rightharpoonup> cpu_t"
  events :: "event list"

text \<open>
  The ways in which a call does not return. Modelled from the spec: \<open>ASSERT\<close> and \<open>BUG\<close> are
  macros of a header that is not among the sources; a violated assertion and \<open>BUG()\<close> stop
  the system.
\<close>

datatype error = NULL_DEREF | PANIC_ASSERT | PANIC_BUG | SPIN_FOREVER

text \<open>
  The values that the functions of \<^verbatim>\<open>sched.c\<close> return as \<open>int\<close>: \<open>ESUCCESS\<close>, which is the 0
  that \<open>schedule_task\<close> returns, \<open>-EINVAL\<close> and \<open>-EEXIST\<close>.
\<close>

datatype retcode = ESUCCESS | NEG_EINVAL | NEG_EEXIST

text \<open>
  What \<^verbatim>\<open>sched.c\<close> takes from headers that are not part of the sources at hand: the two
  sentinels of the repeat policy and the wildcard group of \<^verbatim>\<open>sched.h\<close>, and the meaning of
  a call through a task's function pointer, directly or through the user-mode trampoline.
  They are parameters of the model.
\<close>

record platform =
  TASK_REPEAT_ONCE :: "32 word"
  TASK_REPEAT_LOOP :: "32 word"
  TASK_GROUP_ALL :: "32 word"
  call_func :: "ptr \<Rightarrow> ptr \<Rightarrow> 64 word"
  enter_usermode :: "ptr \<Rightarrow> ptr \<Rightarrow> ptr option \<Rightarrow> 64 word"

subsection \<open>Primitives\<close>

definition emit :: "event \<Rightarrow> sched \<Rightarrow> sched" where
  "emit e s = s\<lparr>events := events s @ [e]\<rparr>"

definition printk :: "message \<Rightarrow> sched \<Rightarrow> sched" where
  "printk m s = emit (EV_PRINTK m) s"

definition store_task :: "ptr \<Rightarrow> task_t \<Rightarrow> sched \<Rightarrow> sched" where
  "store_task p t s = s\<lparr>tasks := (tasks s)(p \<mapsto> t)\<rparr>"

text \<open>
  The task object after \<open>kzalloc\<close> and \<open>memset(task, 0, sizeof(*task))\<close>: every pointer null,
  every number zero, and the first enumerator of each enumeration.
\<close>

definition zeroed_task :: task_t where
  "zeroed_task = \<lparr>task_id = 0, gid = 0, type = TASK_TYPE_KERNEL, state = TASK_STATE_NEW,
     repeat = 0, exec_count = 0, cpu = None, stack = None, name = [], func = 0, arg = 0,
     result = 0\<rparr>"

definition init_tasks :: "sched \<Rightarrow> sched" where
  "init_tasks s = (printk MSG_INIT_TASKS s)\<lparr>next_tid := 0\<rparr>"

definition set_task_state :: "ptr \<Rightarrow> task_state \<Rightarrow> sched \<Rightarrow> error + sched" where
  "set_task_state p st s =
     (case tasks s p of
        None \<Rightarrow> Inl NULL_DEREF
      | Some t \<Rightarrow> Inr (emit (EV_STATE p (state t) st) (store_task p (t\<lparr>state := st\<rparr>) s)))"

definition get_task_state :: "ptr \<Rightarrow> sched \<Rightarrow> error + task_state" where
  "get_task_state p s =
     (case tasks s p of None \<Rightarrow> Inl NULL_DEREF | Some t \<Rightarrow> Inr (state t))"

text \<open>
  Modelled from the spec: \<open>set_task_once\<close> is an inline function of \<^verbatim>\<open>sched.h\<close>, which is not
  among the sources; it makes ONCE the repeat policy of the task.
\<close>

definition set_task_once :: "platform \<Rightarrow> task_t \<Rightarrow> task_t" where
  "set_task_once K t = t\<lparr>repeat := TASK_REPEAT_ONCE K\<rparr>"

text \<open>
  \<open>list_unlink(&task->list)\<close> takes the node out of the list that holds it, whichever
  processor's queue that is.
\<close>

definition list_unlink :: "ptr \<Rightarrow> sched \<Rightarrow> sched" where
  "list_unlink p s =
     s\<lparr>cpus := (\<lambda>c. map_option (\<lambda>q. q\<lparr>task_queue := removeAll p (task_queue q)\<rparr>) (cpus s c))\<rparr>"

text \<open>The tasks linked into the queue of the processor at \<open>c\<close>, head first.\<close>

definition queue_of :: "ptr \<Rightarrow> sched \<Rightarrow> ptr list" where
  "queue_of c s = (case cpus s c of None \<Rightarrow> [] | Some q \<Rightarrow> task_queue q)"

definition list_add_tail :: "ptr \<Rightarrow> ptr \<Rightarrow> sched \<Rightarrow> sched" where
  "list_add_tail p c s =
     (case cpus s c of
        None \<Rightarrow> s
      | Some q \<Rightarrow> s\<lparr>cpus := (cpus s)(c \<mapsto> q\<lparr>task_queue := task_queue q @ [p]\<rparr>)\<rparr>)"

subsection \<open>Task lifecycle\<close>

text \<open>\<open>alloc\<close> is what \<open>kzalloc\<close> returns: \<open>None\<close> when the allocation fails.\<close>

definition create_task :: "platform \<Rightarrow> ptr option \<Rightarrow> sched \<Rightarrow> error + (ptr option \<times> sched)" where
  "create_task K alloc s =
     (case alloc of
        None \<Rightarrow> Inr (None, s)
      | Some p \<Rightarrow>
          (let s1 = store_task p zeroed_task (emit (EV_KZALLOC p) s);
               s2 = store_task p (zeroed_task\<lparr>task_id := next_tid s1\<rparr>) s1;
               s3 = s2\<lparr>next_tid := next_tid s2 + 1\<rparr>;
               s4 = store_task p (zeroed_task\<lparr>task_id := next_tid s1, gid := TASK_GROUP_ALL K\<rparr>) s3
           in case set_task_state p TASK_STATE_NEW s4 of
                Inl e \<Rightarrow> Inl e
              | Inr s5 \<Rightarrow>
                  (case tasks s5 p of
                     None \<Rightarrow> Inl NULL_DEREF
                   | Some t \<Rightarrow> Inr (Some p, store_task p (set_task_once K (t\<lparr>exec_count := 0\<rparr>)) s5))))"

definition destroy_task :: "ptr option \<Rightarrow> sched \<Rightarrow> error + sched" where
  "destroy_task task s =
     (case task of
        None \<Rightarrow> Inr s
      | Some p \<Rightarrow>
          (case tasks s p of
             None \<Rightarrow> Inl NULL_DEREF
           | Some t \<Rightarrow>
               (case cpu t of
                  None \<Rightarrow> Inl NULL_DEREF
                | Some c \<Rightarrow>
                    (case cpus s c of
                       None \<Rightarrow> Inl NULL_DEREF
                     | Some q \<Rightarrow>
                         (let s1 = emit (EV_LOCK c) s;
                              s2 = list_unlink p s1;
                              s3 = (case stack t of None \<Rightarrow> s2 | Some pg \<Rightarrow> emit (EV_PUT_PAGE pg) s2);
                              s4 = emit (EV_UNLOCK c) s3
                          in Inr ((emit (EV_KFREE p) s4)\<lparr>tasks := (tasks s4)(p := None)\<rparr>))))))"

text \<open>\<open>page\<close> is what \<open>get_free_page_top(GFP_USER)\<close> returns when it is called.\<close>

definition prepare_task ::
  "ptr option \<Rightarrow> string \<Rightarrow> ptr \<Rightarrow> ptr \<Rightarrow> task_type \<Rightarrow> ptr option \<Rightarrow> sched \<Rightarrow> error + (retcode \<times> sched)" where
  "prepare_task task nm fn ar ty page s =
     (case task of
        None \<Rightarrow> Inr (NEG_EINVAL, s)
      | Some p \<Rightarrow>
          (case tasks s p of
             None \<Rightarrow> Inl NULL_DEREF
           | Some t \<Rightarrow>
               if \<not> state_num (state t) \<le> state_num TASK_STATE_READY then Inl PANIC_ASSERT
               else
                 (let t1 = t\<lparr>name := nm, func := fn, arg := ar, type := ty\<rparr>;
                      s1 = store_task p t1 s;
                      s2 = (if type t1 = TASK_TYPE_USER
                            then store_task p (t1\<lparr>stack := page\<rparr>) (emit (EV_GET_PAGE page) s1)
                            else s1)
                  in case set_task_state p TASK_STATE_READY s2 of
                       Inl e \<Rightarrow> Inl e
                     | Inr s3 \<Rightarrow> Inr (ESUCCESS, s3))))"

text \<open>
  In the sequential model \<open>wait_for_task_state\<close> returns at once when the state is the awaited
  one and spins for ever otherwise.
\<close>

definition wait_for_task_state :: "ptr option \<Rightarrow> task_state \<Rightarrow> sched \<Rightarrow> error + sched" where
  "wait_for_task_state task st s =
     (case task of
        None \<Rightarrow> Inr s
      | Some p \<Rightarrow>
          (case get_task_state p s of
             Inl e \<Rightarrow> Inl e
           | Inr cur \<Rightarrow> if cur \<noteq> st then Inl SPIN_FOREVER else Inr s))"

definition new_task ::
  "platform \<Rightarrow> string \<Rightarrow> ptr \<Rightarrow> ptr \<Rightarrow> task_type \<Rightarrow> ptr option \<Rightarrow> ptr option \<Rightarrow> sched
     \<Rightarrow> error + (ptr option \<times> sched)" where
  "new_task K nm fn ar ty alloc page s =
     (case create_task K alloc s of
        Inl e \<Rightarrow> Inl e
      | Inr (task, s1) \<Rightarrow>
          (case task of
             None \<Rightarrow> Inr (None, s1)
           | Some p \<Rightarrow>
               (case prepare_task task nm fn ar ty page s1 of
                  Inl e \<Rightarrow> Inl e
                | Inr (rc, s2) \<Rightarrow>
                    if rc \<noteq> ESUCCESS
                    then (case destroy_task task s2 of
                            Inl e \<Rightarrow> Inl e
                          | Inr s3 \<Rightarrow> Inr (None, s3))
                    else Inr (task, s2))))"

fun get_task_by_name_in :: "sched \<Rightarrow> ptr list \<Rightarrow> string \<Rightarrow> error + ptr option" where
  "get_task_by_name_in s [] nm = Inr None"
| "get_task_by_name_in s (p # ps) nm =
     (case tasks s p of
        None \<Rightarrow> Inl NULL_DEREF
      | Some t \<Rightarrow> if name t = nm then Inr (Some p) else get_task_by_name_in s ps nm)"

definition get_task_by_name :: "ptr \<Rightarrow> string \<Rightarrow> sched \<Rightarrow> error + ptr option" where
  "get_task_by_name c nm s =
     (case cpus s c of
        None \<Rightarrow> Inl NULL_DEREF
      | Some q \<Rightarrow> get_task_by_name_in s (task_queue q) nm)"

subsection \<open>Submission\<close>

definition schedule_task :: "ptr option \<Rightarrow> ptr option \<Rightarrow> sched \<Rightarrow> error + (retcode \<times> sched)" where
  "schedule_task task cpu_arg s =
     (case task of
        None \<Rightarrow> Inl PANIC_ASSERT
      | Some p \<Rightarrow>
          (case tasks s p of
             None \<Rightarrow> Inl NULL_DEREF
           | Some t \<Rightarrow>
               (case cpu_arg of
                  None \<Rightarrow> Inr (NEG_EEXIST, printk (MSG_WARN_NO_CPU (name t)) s)
                | Some c \<Rightarrow>
                    if state t \<noteq> TASK_STATE_READY then Inl PANIC_ASSERT
                    else
                      (case cpus s c of
                         None \<Rightarrow> Inl NULL_DEREF
                       | Some q \<Rightarrow>
                           (let s1 = printk (MSG_SCHEDULING (cpu_id q) (name t) (task_id t) (repeat t)) s;
                                s2 = emit (EV_LOCK c) s1;
                                s3 = list_add_tail p c s2;
                                s4 = store_task p (t\<lparr>cpu := Some c\<rparr>) s3
                            in case set_task_state p TASK_STATE_SCHEDULED s4 of
                                 Inl e \<Rightarrow> Inl e
                               | Inr s5 \<Rightarrow> Inr (ESUCCESS, emit (EV_UNLOCK c) s5))))))"

subsection \<open>Execution and retirement\<close>

text \<open>
  The call of the task's function in \<open>run_task\<close>: through \<open>enter_usermode\<close> for a user task,
  directly otherwise. The function is taken not to call back into the scheduler.
  \<open>atomic64_inc_return\<close> adds one to the counter, wrapping at 64 bits, and returns the new
  value.
\<close>

definition invoke :: "platform \<Rightarrow> task_t \<Rightarrow> 64 word" where
  "invoke K t =
     (if type t = TASK_TYPE_USER then enter_usermode K (func t) (arg t) (stack t)
      else call_func K (func t) (arg t))"

definition run_task :: "platform \<Rightarrow> ptr option \<Rightarrow> sched \<Rightarrow> error + sched" where
  "run_task K task s =
     (case task of
        None \<Rightarrow> Inr s
      | Some p \<Rightarrow>
          (case wait_for_task_state task TASK_STATE_SCHEDULED s of
             Inl e \<Rightarrow> Inl e
           | Inr s0 \<Rightarrow>
               (case tasks s0 p of
                  None \<Rightarrow> Inl NULL_DEREF
                | Some t \<Rightarrow>
                    (let t1 = t\<lparr>exec_count := exec_count t + 1\<rparr>;
                         s1 = store_task p t1 s0;
                         started =
                           (if exec_count t1 = 0
                            then (case cpu t1 of
                                    None \<Rightarrow> Inl NULL_DEREF
                                  | Some c \<Rightarrow>
                                      (case cpus s1 c of
                                         None \<Rightarrow> Inl NULL_DEREF
                                       | Some q \<Rightarrow>
                                           Inr (printk (MSG_RUNNING (cpu_id q) (name t1) (task_id t1)) s1)))
                            else Inr s1)
                     in case started of
                          Inl e \<Rightarrow> Inl e
                        | Inr s2 \<Rightarrow>
                            (case set_task_state p TASK_STATE_RUNNING s2 of
                               Inl e \<Rightarrow> Inl e
                             | Inr s3 \<Rightarrow>
                                 (case tasks s3 p of
                                    None \<Rightarrow> Inl NULL_DEREF
                                  | Some t3 \<Rightarrow>
                                      set_task_state p TASK_STATE_DONE
                                        (store_task p (t3\<lparr>result := invoke K t3\<rparr>)
                                           (emit (EV_CALL p) s3))))))))"

definition process_task_repeat :: "platform \<Rightarrow> ptr \<Rightarrow> sched \<Rightarrow> error + sched" where
  "process_task_repeat K p s =
     (case tasks s p of
        None \<Rightarrow> Inl NULL_DEREF
      | Some t \<Rightarrow>
          if repeat t = TASK_REPEAT_ONCE K then
            (case cpu t of
               None \<Rightarrow> Inl NULL_DEREF
             | Some c \<Rightarrow>
                 (case cpus s c of
                    None \<Rightarrow> Inl NULL_DEREF
                  | Some q \<Rightarrow>
                      destroy_task (Some p)
                        (printk (MSG_FINISHED (type t) (name t) (cpu_id q) (result t) (exec_count t)) s)))
          else if repeat t = TASK_REPEAT_LOOP K then set_task_state p TASK_STATE_SCHEDULED s
          else set_task_state p TASK_STATE_SCHEDULED (store_task p (t\<lparr>repeat := repeat t - 1\<rparr>) s))"

text \<open>The body of the \<open>list_for_each_entry_safe\<close> loop of \<open>run_tasks\<close> for one task.\<close>

definition dispatch :: "platform \<Rightarrow> ptr \<Rightarrow> sched \<Rightarrow> error + sched" where
  "dispatch K p s =
     (case tasks s p of
        None \<Rightarrow> Inl NULL_DEREF
      | Some t \<Rightarrow>
          (case state t of
             TASK_STATE_DONE \<Rightarrow> process_task_repeat K p s
           | TASK_STATE_SCHEDULED \<Rightarrow> run_task K (Some p) s
           | _ \<Rightarrow> Inl PANIC_BUG))"

text \<open>
  One traversal of the queue. \<open>list_for_each_entry_safe\<close> reads the successor before the body
  runs, and the body unlinks at most the current task, so the traversal visits the tasks that
  were linked when it started.
\<close>

fun scan_queue :: "platform \<Rightarrow> ptr list \<Rightarrow> sched \<Rightarrow> error + sched" where
  "scan_queue K [] s = Inr s"
| "scan_queue K (p # ps) s =
     (case dispatch K p s of Inl e \<Rightarrow> Inl e | Inr s' \<Rightarrow> scan_queue K ps s')"

definition run_pass :: "platform \<Rightarrow> ptr \<Rightarrow> sched \<Rightarrow> error + sched" where
  "run_pass K c s =
     (case cpus s c of
        None \<Rightarrow> Inl NULL_DEREF
      | Some q \<Rightarrow> scan_queue K (task_queue q) s)"

text \<open>The state after \<open>k\<close> executions of the body of the \<open>do ... while\<close> loop of \<open>run_tasks\<close>.\<close>

fun run_passes :: "platform \<Rightarrow> nat \<Rightarrow> ptr \<Rightarrow> sched \<Rightarrow> error + sched" where
  "run_passes K 0 c s = Inr s"
| "run_passes K (Suc k) c s =
     (case run_pass K c s of Inl e \<Rightarrow> Inl e | Inr s' \<Rightarrow> run_passes K k c s')"

text \<open>
  \<open>run_tasks\<close>: the loop runs until the queue is empty after a pass, which may be never, so it
  takes fuel and \<open>None\<close> stands for a loop that has not ended yet. The processor bring-up
  signalling around the loop (\<open>wait_cpu_unblocked\<close>, \<open>set_cpu_unfinished\<close>, \<open>set_cpu_blocked\<close>,
  \<open>set_cpu_finished\<close>) does not touch tasks or queues and is left out. The processor
  object was read by the pass just made, so \<open>list_is_empty\<close> reads its queue.
\<close>

fun run_tasks :: "platform \<Rightarrow> nat \<Rightarrow> ptr \<Rightarrow> sched \<Rightarrow> (error + sched) option" where
  "run_tasks K 0 c s = None"
| "run_tasks K (Suc n) c s =
     (case run_pass K c s of
        Inl e \<Rightarrow> Some (Inl e)
      | Inr s' \<Rightarrow>
          if queue_of c s' = [] then Some (Inr s') else run_tasks K n c s')"

subsection \<open>Readings of the event history\<close>

text \<open>
  The part of the history that is about one task \<open>p\<close>: its state changes, the calls of its
  function, the release of its object, and the release of the page \<open>pgo\<close> when one is named.
\<close>

fun concerns :: "ptr \<Rightarrow> ptr option \<Rightarrow> event \<Rightarrow> bool" where
  "concerns p pgo (EV_STATE q a b) = (q = p)"
| "concerns p pgo (EV_CALL q) = (q = p)"
| "concerns p pgo (EV_KFREE q) = (q = p)"
| "concerns p pgo (EV_PUT_PAGE pg) = (pgo = Some pg)"
| "concerns p pgo e = False"

definition task_trace :: "ptr \<Rightarrow> ptr option \<Rightarrow> event list \<Rightarrow> event list" where
  "task_trace p pgo evs = filter (concerns p pgo) evs"

text \<open>What one execution, one rescheduling and the destruction of a task leave in its history.\<close>

definition run_evs :: "ptr \<Rightarrow> event list" where
  "run_evs p = [EV_STATE p TASK_STATE_SCHEDULED TASK_STATE_RUNNING, EV_CALL p,
                EV_STATE p TASK_STATE_RUNNING TASK_STATE_DONE]"

definition requeue_evs :: "ptr \<Rightarrow> event list" where
  "requeue_evs p = [EV_STATE p TASK_STATE_DONE TASK_STATE_SCHEDULED]"

definition free_evs :: "ptr \<Rightarrow> ptr option \<Rightarrow> event list" where
  "free_evs p pgo = (case pgo of None \<Rightarrow> [] | Some pg \<Rightarrow> [EV_PUT_PAGE pg]) @ [EV_KFREE p]"

fun is_running_msg :: "event \<Rightarrow> bool" where
  "is_running_msg (EV_PRINTK (MSG_RUNNING c n i)) = True"
| "is_running_msg e = False"

text \<open>The "Running task" line that \<open>run_task\<close> prints for task \<open>t\<close> on processor \<open>q\<close>, if it prints it.\<close>

definition start_msg :: "cpu_t \<Rightarrow> task_t \<Rightarrow> event list" where
  "start_msg q t =
     (if exec_count t + 1 = 0 then [EV_PRINTK (MSG_RUNNING (cpu_id q) (name t) (task_id t))] else [])"


subsection \<open>Well-formed queues\<close>

text \<open>
  A task on the queue of processor \<open>c\<close> as \<open>schedule_task\<close> and the run loop leave it: the
  object exists, refers to \<open>c\<close>, is SCHEDULED or DONE, and does not own the page \<open>pgo\<close>.
\<close>

definition bystander :: "ptr \<Rightarrow> ptr option \<Rightarrow> sched \<Rightarrow> ptr \<Rightarrow> bool" where
  "bystander c pgo s q =
     (case tasks s q of
        None \<Rightarrow> False
      | Some t \<Rightarrow> cpu t = Some c
          \<and> (state t = TASK_STATE_SCHEDULED \<or> state t = TASK_STATE_DONE)
          \<and> (stack t = None \<or> stack t \<noteq> pgo))"

text \<open>The queue of \<open>c\<close> is a list without repetition of such tasks, the task \<open>p\<close> apart.\<close>

definition queue_ok :: "ptr \<Rightarrow> ptr \<Rightarrow> ptr option \<Rightarrow> sched \<Rightarrow> bool" where
  "queue_ok c p pgo s \<longleftrightarrow>
     cpus s c \<noteq> None \<and> distinct (queue_of c s)
     \<and> (\<forall>q \<in> set (queue_of c s). q \<noteq> p \<longrightarrow> bystander c pgo s q)"

text \<open>The task \<open>p\<close> with contents \<open>t\<close> is linked into the well-formed queue of its processor \<open>c\<close>.\<close>

definition queued :: "ptr \<Rightarrow> ptr \<Rightarrow> ptr option \<Rightarrow> sched \<Rightarrow> task_t \<Rightarrow> bool" where
  "queued c p pgo s t \<longleftrightarrow>
     queue_ok c p pgo s \<and> p \<in> set (queue_of c s) \<and> tasks s p = Some t \<and> cpu t = Some c
     \<and> (pgo = None \<or> pgo = stack t)"

subsection \<open>Sequences of scheduler operations\<close>

text \<open>
  The operations that write a task's state: creation, preparation, submission, a direct call
  of \<open>run_task\<close>, and one step of the run loop on a task, which runs it when it reads
  SCHEDULED and retires it through \<open>process_task_repeat\<close> when it reads DONE. A sequence of
  operations stops at the first one that halts or hangs.
\<close>

datatype op =
    OP_CREATE "ptr option"
  | OP_PREPARE "ptr option" string ptr ptr task_type "ptr option"
  | OP_SUBMIT "ptr option" "ptr option"
  | OP_RUN "ptr option"
  | OP_DISPATCH ptr

fun exec_op :: "platform \<Rightarrow> op \<Rightarrow> sched \<Rightarrow> error + sched" where
  "exec_op K (OP_CREATE alloc) s =
     (case create_task K alloc s of Inl e \<Rightarrow> Inl e | Inr (r, s') \<Rightarrow> Inr s')"
| "exec_op K (OP_PREPARE task nm fn ar ty page) s =
     (case prepare_task task nm fn ar ty page s of Inl e \<Rightarrow> Inl e | Inr (r, s') \<Rightarrow> Inr s')"
| "exec_op K (OP_SUBMIT task c) s =
     (case schedule_task task c s of Inl e \<Rightarrow> Inl e | Inr (r, s') \<Rightarrow> Inr s')"
| "exec_op K (OP_RUN task) s = run_task K task s"
| "exec_op K (OP_DISPATCH p) s = dispatch K p s"

fun run_ops :: "platform \<Rightarrow> op list \<Rightarrow> sched \<Rightarrow> error + sched" where
  "run_ops K [] s = Inr s"
| "run_ops K (x # xs) s =
     (case exec_op K x s of Inl e \<Rightarrow> Inl e | Inr s' \<Rightarrow> run_ops K xs s')"

text \<open>
  A write of the state that leaves it as it is, or moves it to the next state of
  NEW, READY, SCHEDULED, RUNNING, DONE, or takes it from DONE back to SCHEDULED.
\<close>

definition legal_step :: "task_state \<Rightarrow> task_state \<Rightarrow> bool" where
  "legal_step a b \<longleftrightarrow>
     b = a \<or> state_num b = Suc (state_num a)
     \<or> (a = TASK_STATE_DONE \<and> b = TASK_STATE_SCHEDULED)"

subsection \<open>Waiting for a group, other processors writing\<close>

text \<open>
  \<open>wait_for_task_group\<close> is called on one processor while the run loop of another writes
  the states it reads. Here the other processors are an oracle: \<open>obs n p\<close> is the state of
  task \<open>p\<close> that the read number \<open>n\<close> returns, each \<open>get_task_state\<close> being one read, and
  \<open>queue_at n\<close> is the queue as linked when a traversal starts at read \<open>n\<close>; \<open>gids\<close> gives
  the group of each task. The functions return the number of reads made so far. Both loops
  may spin for ever, so they take fuel and \<open>None\<close> stands for a wait that has not ended.
  Changes to the links of the queue during a traversal are outside this model.
\<close>

type_synonym observer = "nat \<Rightarrow> ptr \<Rightarrow> task_state"

fun wait_for_task_state_obs :: "nat \<Rightarrow> observer \<Rightarrow> ptr \<Rightarrow> task_state \<Rightarrow> nat \<Rightarrow> nat option" where
  "wait_for_task_state_obs 0 obs p st n = None"
| "wait_for_task_state_obs (Suc fuel) obs p st n =
     (if obs n p \<noteq> st then wait_for_task_state_obs fuel obs p st (Suc n) else Some (Suc n))"

fun scan_group ::
  "platform \<Rightarrow> nat \<Rightarrow> observer \<Rightarrow> (ptr \<Rightarrow> 32 word) \<Rightarrow> 32 word \<Rightarrow> ptr list \<Rightarrow> bool \<Rightarrow> nat
     \<Rightarrow> (bool \<times> nat) option" where
  "scan_group K fuel obs gids grp [] busy n = Some (busy, n)"
| "scan_group K fuel obs gids grp (p # ps) busy n =
     (if grp \<noteq> TASK_GROUP_ALL K \<and> gids p \<noteq> grp
      then scan_group K fuel obs gids grp ps busy n
      else if obs n p \<noteq> TASK_STATE_DONE
      then (case wait_for_task_state_obs fuel obs p TASK_STATE_DONE (Suc n) of
              None \<Rightarrow> None
            | Some n' \<Rightarrow> scan_group K fuel obs gids grp ps True n')
      else scan_group K fuel obs gids grp ps busy (Suc n))"

fun wait_for_task_group ::
  "platform \<Rightarrow> nat \<Rightarrow> observer \<Rightarrow> (ptr \<Rightarrow> 32 word) \<Rightarrow> (nat \<Rightarrow> ptr list) \<Rightarrow> 32 word \<Rightarrow> nat
     \<Rightarrow> nat option" where
  "wait_for_task_group K 0 obs gids queue_at grp n = None"
| "wait_for_task_group K (Suc fuel) obs gids queue_at grp n =
     (case scan_group K (Suc fuel) obs gids grp (queue_at n) False n of
        None \<Rightarrow> None
      | Some (busy, n') \<Rightarrow>
          if busy then wait_for_task_group K fuel obs gids queue_at grp n' else Some n')"

text \<open>The tasks of a queue that the wait is for: all of them for the wildcard group.\<close>

definition matching :: "platform \<Rightarrow> (ptr \<Rightarrow> 32 word) \<Rightarrow> 32 word \<Rightarrow> ptr list \<Rightarrow> ptr list" where
  "matching K gids grp ps = filter (\<lambda>p. grp = TASK_GROUP_ALL K \<or> gids p = grp) ps"

text \<open>All of \<open>ps\<close> are read DONE, one read after the other from time \<open>n\<close>.\<close>

fun all_done_from :: "observer \<Rightarrow> ptr list \<Rightarrow> nat \<Rightarrow> bool" where
  "all_done_from obs [] n = True"
| "all_done_from obs (p # ps) n = (obs n p = TASK_STATE_DONE \<and> all_done_from obs ps (Suc n))"

subsection \<open>A small system to run the code on\<close>

definition demo_platform :: platform where
  "demo_platform = \<lparr>TASK_REPEAT_ONCE = 0, TASK_REPEAT_LOOP = 4294967295, TASK_GROUP_ALL = 0,
     call_func = (\<lambda>f a. 0), enter_usermode = (\<lambda>f a st. 0)\<rparr>"

text \<open>One processor at address 100 with an empty queue, no task.\<close>

definition demo_boot :: sched where
  "demo_boot = \<lparr>next_tid = 0, tasks = Map.empty,
     cpus = [100 \<mapsto> \<lparr>cpu_id = 0, task_queue = []\<rparr>], events = []\<rparr>"

text \<open>After \<open>new_task("t", 7, 0, TASK_TYPE_KERNEL)\<close> has built a task at address 11.\<close>

definition demo_kernel_task :: task_t where
  "demo_kernel_task = \<lparr>task_id = 0, gid = 0, type = TASK_TYPE_KERNEL, state = TASK_STATE_READY,
     repeat = 0, exec_count = 0, cpu = None, stack = None, name = ''t'', func = 7, arg = 0,
     result = 0\<rparr>"

definition demo_ready :: sched where
  "demo_ready = \<lparr>next_tid = 1, tasks = [11 \<mapsto> demo_kernel_task],
     cpus = [100 \<mapsto> \<lparr>cpu_id = 0, task_queue = []\<rparr>],
     events = [EV_KZALLOC 11, EV_STATE 11 TASK_STATE_NEW TASK_STATE_NEW,
               EV_STATE 11 TASK_STATE_NEW TASK_STATE_READY]\<rparr>"

text \<open>After that task has been submitted to the processor.\<close>

definition demo_queued :: sched where
  "demo_queued = \<lparr>next_tid = 1,
     tasks = [11 \<mapsto> demo_kernel_task\<lparr>cpu := Some 100, state := TASK_STATE_SCHEDULED\<rparr>],
     cpus = [100 \<mapsto> \<lparr>cpu_id = 0, task_queue = [11]\<rparr>],
     events = [EV_KZALLOC 11, EV_STATE 11 TASK_STATE_NEW TASK_STATE_NEW,
               EV_STATE 11 TASK_STATE_NEW TASK_STATE_READY,
               EV_PRINTK (MSG_SCHEDULING 0 ''t'' 0 0), EV_LOCK 100,
               EV_STATE 11 TASK_STATE_READY TASK_STATE_SCHEDULED, EV_UNLOCK 100]\<rparr>"

text \<open>The same with the repeat policy of the task set to the count 3.\<close>

definition demo_counted :: sched where
  "demo_counted = demo_queued\<lparr>tasks := [11 \<mapsto>
     demo_kernel_task\<lparr>cpu := Some 100, state := TASK_STATE_SCHEDULED, repeat := 3\<rparr>]\<rparr>"

text \<open>
  After \<open>new_task("u", 8, 0, TASK_TYPE_USER)\<close> has built a second task at address 12, with
  the stack page 4096, and the task has been submitted to the same processor.
\<close>

definition demo_user_task :: task_t where
  "demo_user_task = \<lparr>task_id = 1, gid = 0, type = TASK_TYPE_USER, state = TASK_STATE_SCHEDULED,
     repeat = 0, exec_count = 0, cpu = Some 100, stack = Some 4096, name = ''u'', func = 8,
     arg = 0, result = 0\<rparr>"

definition demo_two :: sched where
  "demo_two = \<lparr>next_tid = 2,
     tasks = [11 \<mapsto> demo_kernel_task\<lparr>cpu := Some 100, state := TASK_STATE_SCHEDULED\<rparr>,
              12 \<mapsto> demo_user_task],
     cpus = [100 \<mapsto> \<lparr>cpu_id = 0, task_queue = [11, 12]\<rparr>],
     events = events demo_queued @
              [EV_KZALLOC 12, EV_STATE 12 TASK_STATE_NEW TASK_STATE_NEW, EV_GET_PAGE (Some 4096),
               EV_STATE 12 TASK_STATE_NEW TASK_STATE_READY,
               EV_PRINTK (MSG_SCHEDULING 0 ''u'' 1 0), EV_LOCK 100,
               EV_STATE 12 TASK_STATE_READY TASK_STATE_SCHEDULED, EV_UNLOCK 100]\<rparr>"

text \<open>
  Readers of the two tasks at 11 and 12: the first is DONE at every read, the second is
  SCHEDULED, then RUNNING at the third read and DONE from the fourth on.
\<close>

definition demo_obs :: observer where
  "demo_obs n p = (if p = 11 then TASK_STATE_DONE
                   else if n < 2 then TASK_STATE_SCHEDULED
                   else if n < 3 then TASK_STATE_RUNNING
                   else TASK_STATE_DONE)"

definition demo_gids :: "ptr \<Rightarrow> 32 word" where
  "demo_gids p = (if p = 11 then 1 else 2)"

section \<open>Properties\<close>

subsection \<open>What each operation does to a well-formed task\<close>

lemmas prim_defs = emit_def printk_def store_task_def set_task_state_def get_task_state_def
  list_unlink_def list_add_tail_def

lemma invoke_upd [simp]: "invoke K (t\<lparr>exec_count := e, state := st\<rparr>) = invoke K t"
  by (simp add: invoke_def)

lemma run_task_scheduled:
  assumes "tasks s p = Some t" "state t = TASK_STATE_SCHEDULED" "cpu t = Some c" "cpus s c = Some q"
  shows "run_task K (Some p) s =
     Inr (s\<lparr>tasks := (tasks s)(p \<mapsto> t\<lparr>exec_count := exec_count t + 1, result := invoke K t,
                                        state := TASK_STATE_DONE\<rparr>),
             events := events s @ start_msg q t @
               [EV_STATE p TASK_STATE_SCHEDULED TASK_STATE_RUNNING, EV_CALL p,
                EV_STATE p TASK_STATE_RUNNING TASK_STATE_DONE]\<rparr>)"
  using assms
  by (simp add: run_task_def wait_for_task_state_def prim_defs start_msg_def Let_def)

lemma requeue_count:
  assumes "tasks s p = Some t" "repeat t \<noteq> TASK_REPEAT_ONCE K" "repeat t \<noteq> TASK_REPEAT_LOOP K"
  shows "process_task_repeat K p s =
     Inr (s\<lparr>tasks := (tasks s)(p \<mapsto> t\<lparr>repeat := repeat t - 1, state := TASK_STATE_SCHEDULED\<rparr>),
             events := events s @ [EV_STATE p (state t) TASK_STATE_SCHEDULED]\<rparr>)"
  using assms
  by (simp add: process_task_repeat_def prim_defs)

lemma requeue_loop:
  assumes "tasks s p = Some t" "repeat t \<noteq> TASK_REPEAT_ONCE K" "repeat t = TASK_REPEAT_LOOP K"
  shows "process_task_repeat K p s =
     Inr (s\<lparr>tasks := (tasks s)(p \<mapsto> t\<lparr>state := TASK_STATE_SCHEDULED\<rparr>),
             events := events s @ [EV_STATE p (state t) TASK_STATE_SCHEDULED]\<rparr>)"
  using assms
  by (simp add: process_task_repeat_def prim_defs)

lemma retire_once:
  assumes "tasks s p = Some t" "repeat t = TASK_REPEAT_ONCE K" "cpu t = Some c" "cpus s c = Some q"
  shows "process_task_repeat K p s =
     Inr (s\<lparr>tasks := (tasks s)(p := None),
             cpus := (\<lambda>c. map_option (\<lambda>q. q\<lparr>task_queue := removeAll p (task_queue q)\<rparr>) (cpus s c)),
             events := events s @
               [EV_PRINTK (MSG_FINISHED (type t) (name t) (cpu_id q) (result t) (exec_count t)),
                EV_LOCK c]
               @ (case stack t of None \<Rightarrow> [] | Some pg \<Rightarrow> [EV_PUT_PAGE pg])
               @ [EV_UNLOCK c, EV_KFREE p]\<rparr>)"
  using assms
  by (simp add: process_task_repeat_def destroy_task_def prim_defs Let_def split: option.splits)

lemma create_task_some:
  "\<exists>s'. create_task K (Some p) s = Inr (Some p, s') \<and>
     tasks s' p = Some (zeroed_task\<lparr>task_id := next_tid s, gid := TASK_GROUP_ALL K,
                                    repeat := TASK_REPEAT_ONCE K\<rparr>)"
  by (auto simp: create_task_def prim_defs Let_def set_task_once_def zeroed_task_def)

lemma prepare_task_ready:
  assumes "tasks s p = Some t" and "state_num (state t) \<le> state_num TASK_STATE_READY"
  shows "prepare_task (Some p) nm fn ar ty page s =
     Inr (ESUCCESS,
          s\<lparr>tasks := (tasks s)(p \<mapsto> t\<lparr>name := nm, func := fn, arg := ar, type := ty,
                  stack := (if ty = TASK_TYPE_USER then page else stack t),
                  state := TASK_STATE_READY\<rparr>),
            events := events s @ (if ty = TASK_TYPE_USER then [EV_GET_PAGE page] else [])
                        @ [EV_STATE p (state t) TASK_STATE_READY]\<rparr>)"
  using assms
  by (simp add: prepare_task_def prim_defs Let_def)

lemma new_task_some:
  "\<exists>s'. new_task K nm fn ar ty (Some p) page s = Inr (Some p, s')
      \<and> tasks s' p = Some \<lparr>task_id = next_tid s, gid = TASK_GROUP_ALL K, type = ty,
            state = TASK_STATE_READY, repeat = TASK_REPEAT_ONCE K, exec_count = 0, cpu = None,
            stack = (if ty = TASK_TYPE_USER then page else None), name = nm, func = fn,
            arg = ar, result = 0\<rparr>
      \<and> cpus s' = cpus s
      \<and> (\<forall>r. r \<noteq> p \<longrightarrow> tasks s' r = tasks s r)"
  by (simp add: new_task_def create_task_def prepare_task_def prim_defs Let_def
      set_task_once_def zeroed_task_def)

lemma new_task_eq:
  "new_task K nm fn ar ty (Some p) page s =
     Inr (Some p,
          s\<lparr>next_tid := next_tid s + 1,
            tasks := (tasks s)(p \<mapsto> \<lparr>task_id = next_tid s, gid = TASK_GROUP_ALL K, type = ty,
              state = TASK_STATE_READY, repeat = TASK_REPEAT_ONCE K, exec_count = 0, cpu = None,
              stack = (if ty = TASK_TYPE_USER then page else None), name = nm, func = fn,
              arg = ar, result = 0\<rparr>),
            events := events s @ [EV_KZALLOC p, EV_STATE p TASK_STATE_NEW TASK_STATE_NEW]
              @ (if ty = TASK_TYPE_USER then [EV_GET_PAGE page] else [])
              @ [EV_STATE p TASK_STATE_NEW TASK_STATE_READY]\<rparr>)"
  by (simp add: new_task_def create_task_def prepare_task_def prim_defs Let_def
      set_task_once_def zeroed_task_def)

lemma schedule_task_eq:
  assumes "tasks s p = Some t" and "state t = TASK_STATE_READY" and "cpus s c = Some q"
  shows "schedule_task (Some p) (Some c) s =
     Inr (ESUCCESS,
          s\<lparr>tasks := (tasks s)(p \<mapsto> t\<lparr>cpu := Some c, state := TASK_STATE_SCHEDULED\<rparr>),
            cpus := (cpus s)(c \<mapsto> q\<lparr>task_queue := task_queue q @ [p]\<rparr>),
            events := events s @ [EV_PRINTK (MSG_SCHEDULING (cpu_id q) (name t) (task_id t) (repeat t)),
               EV_LOCK c, EV_STATE p TASK_STATE_READY TASK_STATE_SCHEDULED, EV_UNLOCK c]\<rparr>)"
  using assms
  by (simp add: schedule_task_def prim_defs Let_def)

subsection \<open>The small system is what the code builds\<close>

lemma demo_ready_reached:
  "new_task demo_platform ''t'' 7 0 TASK_TYPE_KERNEL (Some 11) None demo_boot
     = Inr (Some 11, demo_ready)"
  by (simp add: new_task_eq demo_boot_def demo_ready_def demo_kernel_task_def demo_platform_def)

lemma demo_ready_task: "tasks demo_ready 11 = Some demo_kernel_task"
  by (simp add: demo_ready_def)

lemma demo_ready_cpus: "cpus demo_ready 100 = Some \<lparr>cpu_id = 0, task_queue = []\<rparr>"
  by (simp add: demo_ready_def)

lemma demo_queued_reached:
  "schedule_task (Some 11) (Some 100) demo_ready = Inr (ESUCCESS, demo_queued)"
  by (simp add: schedule_task_eq [OF demo_ready_task _ demo_ready_cpus] demo_kernel_task_def)
     (simp add: demo_ready_def demo_queued_def demo_kernel_task_def)

lemma demo_queued_task:
  "tasks demo_queued 11 = Some (demo_kernel_task\<lparr>cpu := Some 100, state := TASK_STATE_SCHEDULED\<rparr>)"
  by (simp add: demo_queued_def)

lemma demo_queued_cpus: "cpus demo_queued 100 = Some \<lparr>cpu_id = 0, task_queue = [11]\<rparr>"
  by (simp add: demo_queued_def)

lemma demo_two_reached:
  "\<exists>s1. new_task demo_platform ''u'' 8 0 TASK_TYPE_USER (Some 12) (Some 4096) demo_queued
           = Inr (Some 12, s1)
      \<and> schedule_task (Some 12) (Some 100) s1 = Inr (ESUCCESS, demo_two)"
proof -
  let ?s1 = "demo_queued\<lparr>next_tid := 2,
      tasks := (tasks demo_queued)(12 \<mapsto> demo_user_task\<lparr>cpu := None, state := TASK_STATE_READY\<rparr>),
      events := events demo_queued @ [EV_KZALLOC 12, EV_STATE 12 TASK_STATE_NEW TASK_STATE_NEW,
         EV_GET_PAGE (Some 4096), EV_STATE 12 TASK_STATE_NEW TASK_STATE_READY]\<rparr>"
  have n: "new_task demo_platform ''u'' 8 0 TASK_TYPE_USER (Some 12) (Some 4096) demo_queued
             = Inr (Some 12, ?s1)"
    by (simp add: new_task_eq demo_platform_def demo_user_task_def) (simp add: demo_queued_def)
  have t: "tasks ?s1 12 = Some (demo_user_task\<lparr>cpu := None, state := TASK_STATE_READY\<rparr>)"
    and c: "cpus ?s1 100 = Some \<lparr>cpu_id = 0, task_queue = [11]\<rparr>"
    by (simp_all add: demo_queued_def)
  have r: "state (demo_user_task\<lparr>cpu := None, state := TASK_STATE_READY\<rparr>) = TASK_STATE_READY"
    by simp
  have "schedule_task (Some 12) (Some 100) ?s1 = Inr (ESUCCESS, demo_two)"
    unfolding schedule_task_eq [OF t r c]
    by (simp add: demo_queued_def demo_two_def demo_user_task_def)
  with n show ?thesis by blast
qed

subsection \<open>One pass of the run loop, seen from one task\<close>

lemma bystander_cong: "tasks s' q = tasks s q \<Longrightarrow> bystander c pgo s' q = bystander c pgo s q"
  by (simp add: bystander_def)

lemma task_trace_append [simp]:
  "task_trace p pgo (xs @ ys) = task_trace p pgo xs @ task_trace p pgo ys"
  by (simp add: task_trace_def)

lemma task_trace_Nil [simp]: "task_trace p pgo [] = []"
  by (simp add: task_trace_def)

lemma task_trace_Cons [simp]:
  "task_trace p pgo (e # es) = (if concerns p pgo e then e # task_trace p pgo es else task_trace p pgo es)"
  by (simp add: task_trace_def)

lemma task_trace_start_msg [simp]: "task_trace p pgo (start_msg q t) = []"
  by (simp add: task_trace_def start_msg_def)

lemma removeAll_filter_ne: "removeAll q xs = filter (\<lambda>r. r \<noteq> q) xs"
  by (induction xs) auto

lemma dispatch_bystander:
  assumes c: "cpus s c \<noteq> None" and b: "bystander c pgo s q" and ne: "q \<noteq> p"
  shows "\<exists>s'. dispatch K q s = Inr s'
           \<and> (\<forall>r. r \<noteq> q \<longrightarrow> tasks s' r = tasks s r)
           \<and> cpus s' c \<noteq> None
           \<and> queue_of c s' = filter (\<lambda>r. r = q \<longrightarrow> tasks s' r \<noteq> None) (queue_of c s)
           \<and> (tasks s' q \<noteq> None \<longrightarrow> bystander c pgo s' q)
           \<and> task_trace p pgo (events s') = task_trace p pgo (events s)"
proof -
  from c obtain cq where cq: "cpus s c = Some cq" by blast
  from b obtain t where t: "tasks s q = Some t" and tc: "cpu t = Some c"
    and st: "state t = TASK_STATE_SCHEDULED \<or> state t = TASK_STATE_DONE"
    and pg: "stack t = None \<or> stack t \<noteq> pgo"
    by (auto simp: bystander_def split: option.splits)
  from st show ?thesis
  proof
    assume sch: "state t = TASK_STATE_SCHEDULED"
    show ?thesis
      using ne tc pg
      by (simp add: dispatch_def t sch run_task_scheduled [OF t sch tc cq] queue_of_def cq
          bystander_def)
  next
    assume dn: "state t = TASK_STATE_DONE"
    consider (once) "repeat t = TASK_REPEAT_ONCE K"
      | (loop) "repeat t \<noteq> TASK_REPEAT_ONCE K" "repeat t = TASK_REPEAT_LOOP K"
      | (count) "repeat t \<noteq> TASK_REPEAT_ONCE K" "repeat t \<noteq> TASK_REPEAT_LOOP K"
      by blast
    then show ?thesis
    proof cases
      case once
      show ?thesis
        using ne pg
        by (auto simp: dispatch_def t dn retire_once [OF t once tc cq] queue_of_def cq
            removeAll_filter_ne split: option.splits)
    next
      case loop
      show ?thesis
        using ne tc pg
        by (simp add: dispatch_def t dn requeue_loop [OF t loop] queue_of_def cq
            bystander_def)
    next
      case count
      show ?thesis
        using ne tc pg
        by (simp add: dispatch_def t dn requeue_count [OF t count] queue_of_def cq
            bystander_def)
    qed
  qed
qed

lemma scan_queue_append:
  "scan_queue K (xs @ ys) s =
     (case scan_queue K xs s of Inl e \<Rightarrow> Inl e | Inr s' \<Rightarrow> scan_queue K ys s')"
  by (induction xs arbitrary: s) (auto split: sum.splits)

lemma scan_bystanders:
  assumes "cpus s c \<noteq> None" and "\<forall>q\<in>set qs. bystander c pgo s q" and "distinct qs"
    and "p \<notin> set qs"
  shows "\<exists>s'. scan_queue K qs s = Inr s'
           \<and> (\<forall>r. r \<notin> set qs \<longrightarrow> tasks s' r = tasks s r)
           \<and> cpus s' c \<noteq> None
           \<and> queue_of c s' = filter (\<lambda>r. r \<in> set qs \<longrightarrow> tasks s' r \<noteq> None) (queue_of c s)
           \<and> (\<forall>q\<in>set qs. tasks s' q \<noteq> None \<longrightarrow> bystander c pgo s' q)
           \<and> task_trace p pgo (events s') = task_trace p pgo (events s)"
  using assms
proof (induction qs arbitrary: s)
  case Nil
  then show ?case by simp
next
  case (Cons q qs)
  from Cons.prems have bq: "bystander c pgo s q" and ne: "q \<noteq> p" and nq: "q \<notin> set qs"
    and d: "distinct qs" and np: "p \<notin> set qs"
    by auto
  from dispatch_bystander [OF Cons.prems(1) bq ne, of K]
  obtain s1 where d1: "dispatch K q s = Inr s1"
    and f1: "\<forall>r. r \<noteq> q \<longrightarrow> tasks s1 r = tasks s r"
    and c1: "cpus s1 c \<noteq> None"
    and q1: "queue_of c s1 = filter (\<lambda>r. r = q \<longrightarrow> tasks s1 r \<noteq> None) (queue_of c s)"
    and b1: "tasks s1 q \<noteq> None \<longrightarrow> bystander c pgo s1 q"
    and t1: "task_trace p pgo (events s1) = task_trace p pgo (events s)"
    by blast
  have "\<forall>r\<in>set qs. bystander c pgo s1 r"
  proof
    fix r assume r: "r \<in> set qs"
    with nq have "r \<noteq> q" by auto
    with f1 have "tasks s1 r = tasks s r" by simp
    from bystander_cong [OF this] Cons.prems(2) r show "bystander c pgo s1 r" by simp
  qed
  from Cons.IH [OF c1 this d np]
  obtain s' where d2: "scan_queue K qs s1 = Inr s'"
    and f2: "\<forall>r. r \<notin> set qs \<longrightarrow> tasks s' r = tasks s1 r"
    and c2: "cpus s' c \<noteq> None"
    and q2: "queue_of c s' = filter (\<lambda>r. r \<in> set qs \<longrightarrow> tasks s' r \<noteq> None) (queue_of c s1)"
    and b2: "\<forall>r\<in>set qs. tasks s' r \<noteq> None \<longrightarrow> bystander c pgo s' r"
    and t2: "task_trace p pgo (events s') = task_trace p pgo (events s1)"
    by blast
  from f2 nq have sq: "tasks s' q = tasks s1 q" by simp
  have "scan_queue K (q # qs) s = Inr s'" using d1 d2 by simp
  moreover have "\<forall>r. r \<notin> set (q # qs) \<longrightarrow> tasks s' r = tasks s r"
    using f1 f2 by simp
  moreover have "queue_of c s' = filter (\<lambda>r. r \<in> set (q # qs) \<longrightarrow> tasks s' r \<noteq> None) (queue_of c s)"
    unfolding q2 q1 filter_filter using sq
    by (intro filter_cong) auto
  moreover have "\<forall>r\<in>set (q # qs). tasks s' r \<noteq> None \<longrightarrow> bystander c pgo s' r"
  proof
    fix r assume "r \<in> set (q # qs)"
    then consider "r = q" | "r \<in> set qs" by auto
    then show "tasks s' r \<noteq> None \<longrightarrow> bystander c pgo s' r"
    proof cases
      case 1
      with b1 sq bystander_cong [OF sq] show ?thesis by simp
    next
      case 2
      with b2 show ?thesis by simp
    qed
  qed
  ultimately show ?case using c2 t1 t2 by simp
qed

lemma pass_subject:
  assumes ok: "queue_ok c p pgo s" and inq: "p \<in> set (queue_of c s)"
    and eff: "\<And>s1. tasks s1 p = tasks s p \<Longrightarrow> cpus s1 c \<noteq> None \<Longrightarrow>
       \<exists>s2. dispatch K p s1 = Inr s2 \<and> tasks s2 p = T
          \<and> (\<forall>r. r \<noteq> p \<longrightarrow> tasks s2 r = tasks s1 r) \<and> cpus s2 c \<noteq> None
          \<and> queue_of c s2 = filter (\<lambda>r. r = p \<longrightarrow> T \<noteq> None) (queue_of c s1)
          \<and> task_trace p pgo (events s2) = task_trace p pgo (events s1) @ E"
  shows "\<exists>s'. run_pass K c s = Inr s' \<and> queue_ok c p pgo s' \<and> tasks s' p = T
           \<and> (p \<in> set (queue_of c s') \<longleftrightarrow> T \<noteq> None)
           \<and> set (queue_of c s') \<subseteq> set (queue_of c s)
           \<and> task_trace p pgo (events s') = task_trace p pgo (events s) @ E"
proof -
  from ok have c0: "cpus s c \<noteq> None" and dq: "distinct (queue_of c s)"
    and by0: "\<forall>q \<in> set (queue_of c s). q \<noteq> p \<longrightarrow> bystander c pgo s q"
    by (simp_all add: queue_ok_def)
  from inq obtain xs ys where q: "queue_of c s = xs @ p # ys"
    by (auto dest: split_list)
  with dq have pxs: "p \<notin> set xs" and pys: "p \<notin> set ys" and dxs: "distinct xs"
    and dys: "distinct ys" and dis: "set xs \<inter> set ys = {}"
    by auto
  have bx: "\<forall>q\<in>set xs. bystander c pgo s q" using by0 q pxs by auto
  from scan_bystanders [OF c0 bx dxs pxs, of K]
  obtain s1 where r1: "scan_queue K xs s = Inr s1"
    and f1: "\<forall>r. r \<notin> set xs \<longrightarrow> tasks s1 r = tasks s r"
    and c1: "cpus s1 c \<noteq> None"
    and q1: "queue_of c s1 = filter (\<lambda>r. r \<in> set xs \<longrightarrow> tasks s1 r \<noteq> None) (queue_of c s)"
    and b1: "\<forall>q\<in>set xs. tasks s1 q \<noteq> None \<longrightarrow> bystander c pgo s1 q"
    and t1: "task_trace p pgo (events s1) = task_trace p pgo (events s)"
    by blast
  from f1 pxs have "tasks s1 p = tasks s p" by simp
  from eff [OF this c1]
  obtain s2 where r2: "dispatch K p s1 = Inr s2" and p2: "tasks s2 p = T"
    and f2: "\<forall>r. r \<noteq> p \<longrightarrow> tasks s2 r = tasks s1 r" and c2: "cpus s2 c \<noteq> None"
    and q2: "queue_of c s2 = filter (\<lambda>r. r = p \<longrightarrow> T \<noteq> None) (queue_of c s1)"
    and t2: "task_trace p pgo (events s2) = task_trace p pgo (events s1) @ E"
    by blast
  have by2: "\<forall>q\<in>set ys. bystander c pgo s2 q"
  proof
    fix r assume r: "r \<in> set ys"
    with pys dis have "r \<noteq> p" "r \<notin> set xs" by auto
    with f1 f2 have "tasks s2 r = tasks s r" by simp
    from bystander_cong [OF this] by0 r q \<open>r \<noteq> p\<close> show "bystander c pgo s2 r" by simp
  qed
  from scan_bystanders [OF c2 by2 dys pys, of K]
  obtain s3 where r3: "scan_queue K ys s2 = Inr s3"
    and f3: "\<forall>r. r \<notin> set ys \<longrightarrow> tasks s3 r = tasks s2 r"
    and c3: "cpus s3 c \<noteq> None"
    and q3: "queue_of c s3 = filter (\<lambda>r. r \<in> set ys \<longrightarrow> tasks s3 r \<noteq> None) (queue_of c s2)"
    and b3: "\<forall>q\<in>set ys. tasks s3 q \<noteq> None \<longrightarrow> bystander c pgo s3 q"
    and t3: "task_trace p pgo (events s3) = task_trace p pgo (events s2)"
    by blast
  from c0 q have "run_pass K c s = scan_queue K (xs @ p # ys) s"
    by (auto simp: run_pass_def queue_of_def)
  with r1 r2 r3 have run: "run_pass K c s = Inr s3"
    by (simp add: scan_queue_append)
  have p3: "tasks s3 p = T" using f3 pys p2 by simp
  have mem: "\<And>r. r \<in> set (queue_of c s3) \<longleftrightarrow>
      r \<in> set (queue_of c s) \<and> (r \<in> set ys \<longrightarrow> tasks s3 r \<noteq> None) \<and> (r = p \<longrightarrow> T \<noteq> None)
        \<and> (r \<in> set xs \<longrightarrow> tasks s1 r \<noteq> None)"
    unfolding q3 q2 q1 by auto
  have d3: "distinct (queue_of c s3)" unfolding q3 q2 q1 using dq by simp
  have by3: "\<forall>r \<in> set (queue_of c s3). r \<noteq> p \<longrightarrow> bystander c pgo s3 r"
  proof (intro ballI impI)
    fix r assume r: "r \<in> set (queue_of c s3)" and np: "r \<noteq> p"
    from r mem have rq: "r \<in> set (queue_of c s)" and a3: "r \<in> set ys \<longrightarrow> tasks s3 r \<noteq> None"
      and a1: "r \<in> set xs \<longrightarrow> tasks s1 r \<noteq> None" by auto
    from rq q np consider "r \<in> set xs" | "r \<in> set ys" by auto
    then show "bystander c pgo s3 r"
    proof cases
      case 1
      with dis have "r \<notin> set ys" by auto
      with f3 f2 np have "tasks s3 r = tasks s1 r" by simp
      from bystander_cong [OF this] b1 a1 1 show ?thesis by simp
    next
      case 2
      with b3 a3 show ?thesis by simp
    qed
  qed
  have "p \<in> set (queue_of c s3) \<longleftrightarrow> T \<noteq> None"
    using mem [of p] inq pys pxs by simp
  moreover have "set (queue_of c s3) \<subseteq> set (queue_of c s)"
    using mem by blast
  ultimately show ?thesis
    using run c3 d3 by3 p3 t1 t2 t3 by (simp add: queue_ok_def)
qed

lemma pass_gone:
  assumes ok: "queue_ok c p pgo s" and nin: "p \<notin> set (queue_of c s)"
  shows "\<exists>s'. run_pass K c s = Inr s' \<and> queue_ok c p pgo s' \<and> p \<notin> set (queue_of c s')
           \<and> tasks s' p = tasks s p
           \<and> set (queue_of c s') \<subseteq> set (queue_of c s)
           \<and> task_trace p pgo (events s') = task_trace p pgo (events s)"
proof -
  from ok have c0: "cpus s c \<noteq> None" and dq: "distinct (queue_of c s)"
    and by0: "\<forall>q \<in> set (queue_of c s). bystander c pgo s q"
    using nin by (auto simp: queue_ok_def)
  from scan_bystanders [OF c0 by0 dq nin, of K]
  obtain s1 where r1: "scan_queue K (queue_of c s) s = Inr s1"
    and f1: "\<forall>r. r \<notin> set (queue_of c s) \<longrightarrow> tasks s1 r = tasks s r"
    and c1: "cpus s1 c \<noteq> None"
    and q1: "queue_of c s1 = filter (\<lambda>r. r \<in> set (queue_of c s) \<longrightarrow> tasks s1 r \<noteq> None) (queue_of c s)"
    and b1: "\<forall>q\<in>set (queue_of c s). tasks s1 q \<noteq> None \<longrightarrow> bystander c pgo s1 q"
    and t1: "task_trace p pgo (events s1) = task_trace p pgo (events s)"
    by blast
  from c0 have "run_pass K c s = scan_queue K (queue_of c s) s"
    by (auto simp: run_pass_def queue_of_def)
  with r1 have "run_pass K c s = Inr s1" by simp
  moreover have "distinct (queue_of c s1)" unfolding q1 using dq by simp
  moreover have "\<forall>r \<in> set (queue_of c s1). bystander c pgo s1 r"
    unfolding q1 using b1 by auto
  moreover have "p \<notin> set (queue_of c s1)" unfolding q1 using nin by simp
  moreover have "set (queue_of c s1) \<subseteq> set (queue_of c s)" unfolding q1 by auto
  ultimately show ?thesis using c1 f1 nin t1 by (auto simp: queue_ok_def)
qed

lemma pass_run:
  assumes q: "queued c p pgo s t" and st: "state t = TASK_STATE_SCHEDULED"
  shows "\<exists>s'. run_pass K c s = Inr s'
     \<and> queued c p pgo s' (t\<lparr>exec_count := exec_count t + 1, result := invoke K t, state := TASK_STATE_DONE\<rparr>)
     \<and> set (queue_of c s') \<subseteq> set (queue_of c s)
     \<and> task_trace p pgo (events s') = task_trace p pgo (events s) @ run_evs p"
proof -
  from q have ok: "queue_ok c p pgo s" and inq: "p \<in> set (queue_of c s)"
    and t: "tasks s p = Some t" and tc: "cpu t = Some c" and pg: "pgo = None \<or> pgo = stack t"
    by (simp_all add: queued_def)
  have "\<exists>s2. dispatch K p s1 = Inr s2
          \<and> tasks s2 p = Some (t\<lparr>exec_count := exec_count t + 1, result := invoke K t, state := TASK_STATE_DONE\<rparr>)
          \<and> (\<forall>r. r \<noteq> p \<longrightarrow> tasks s2 r = tasks s1 r) \<and> cpus s2 c \<noteq> None
          \<and> queue_of c s2 = filter (\<lambda>r. r = p \<longrightarrow> Some (t\<lparr>exec_count := exec_count t + 1, result := invoke K t, state := TASK_STATE_DONE\<rparr>) \<noteq> None) (queue_of c s1)
          \<and> task_trace p pgo (events s2) = task_trace p pgo (events s1) @ run_evs p"
    if a: "tasks s1 p = tasks s p" and b: "cpus s1 c \<noteq> None" for s1
  proof -
    from b obtain cq where cq: "cpus s1 c = Some cq" by blast
    from a t have t1: "tasks s1 p = Some t" by simp
    show ?thesis
      by (simp add: dispatch_def t1 st run_task_scheduled [OF t1 st tc cq] queue_of_def cq run_evs_def)
  qed
  from pass_subject [OF ok inq this] pg tc show ?thesis
    by (auto simp: queued_def)
qed


lemma pass_loop:
  assumes q: "queued c p pgo s t" and st: "state t = TASK_STATE_DONE"
    and r1: "repeat t \<noteq> TASK_REPEAT_ONCE K" and r2: "repeat t = TASK_REPEAT_LOOP K"
  shows "\<exists>s'. run_pass K c s = Inr s'
     \<and> queued c p pgo s' (t\<lparr>state := TASK_STATE_SCHEDULED\<rparr>)
     \<and> set (queue_of c s') \<subseteq> set (queue_of c s)
     \<and> task_trace p pgo (events s') = task_trace p pgo (events s) @ requeue_evs p"
proof -
  from q have ok: "queue_ok c p pgo s" and inq: "p \<in> set (queue_of c s)"
    and t: "tasks s p = Some t" and tc: "cpu t = Some c" and pg: "pgo = None \<or> pgo = stack t"
    by (simp_all add: queued_def)
  have "\<exists>s2. dispatch K p s1 = Inr s2
          \<and> tasks s2 p = Some (t\<lparr>state := TASK_STATE_SCHEDULED\<rparr>)
          \<and> (\<forall>r. r \<noteq> p \<longrightarrow> tasks s2 r = tasks s1 r) \<and> cpus s2 c \<noteq> None
          \<and> queue_of c s2 = filter (\<lambda>r. r = p \<longrightarrow> Some (t\<lparr>state := TASK_STATE_SCHEDULED\<rparr>) \<noteq> None) (queue_of c s1)
          \<and> task_trace p pgo (events s2) = task_trace p pgo (events s1) @ requeue_evs p"
    if a: "tasks s1 p = tasks s p" and b: "cpus s1 c \<noteq> None" for s1
  proof -
    from b obtain cq where cq: "cpus s1 c = Some cq" by blast
    from a t have t1: "tasks s1 p = Some t" by simp
    show ?thesis
      by (simp add: dispatch_def t1 st requeue_loop [OF t1 r1 r2] queue_of_def cq requeue_evs_def)
  qed
  from pass_subject [OF ok inq this] pg tc show ?thesis
    by (auto simp: queued_def)
qed

lemma pass_retire:
  assumes q: "queued c p pgo s t" and st: "state t = TASK_STATE_DONE"
    and r1: "repeat t = TASK_REPEAT_ONCE K"
  shows "\<exists>s'. run_pass K c s = Inr s'
     \<and> queue_ok c p pgo s' \<and> tasks s' p = None \<and> p \<notin> set (queue_of c s')
     \<and> set (queue_of c s') \<subseteq> set (queue_of c s)
     \<and> task_trace p pgo (events s') = task_trace p pgo (events s) @ free_evs p pgo"
proof -
  from q have ok: "queue_ok c p pgo s" and inq: "p \<in> set (queue_of c s)"
    and t: "tasks s p = Some t" and tc: "cpu t = Some c" and pg: "pgo = None \<or> pgo = stack t"
    by (simp_all add: queued_def)
  have "\<exists>s2. dispatch K p s1 = Inr s2
          \<and> tasks s2 p = None
          \<and> (\<forall>r. r \<noteq> p \<longrightarrow> tasks s2 r = tasks s1 r) \<and> cpus s2 c \<noteq> None
          \<and> queue_of c s2 = filter (\<lambda>r. r = p \<longrightarrow> (None :: task_t option) \<noteq> None) (queue_of c s1)
          \<and> task_trace p pgo (events s2) = task_trace p pgo (events s1) @ free_evs p pgo"
    if a: "tasks s1 p = tasks s p" and b: "cpus s1 c \<noteq> None" for s1
  proof -
    from b obtain cq where cq: "cpus s1 c = Some cq" by blast
    from a t have t1: "tasks s1 p = Some t" by simp
    show ?thesis
      using pg
      by (auto simp: dispatch_def t1 st retire_once [OF t1 r1 tc cq] queue_of_def cq free_evs_def
          removeAll_filter_ne split: option.splits)
  qed
  from pass_subject [OF ok inq this] show ?thesis
    by auto
qed

subsection \<open>The start message of \<open>run_task\<close>\<close>

text \<open>
  Claim C5. \<open>run_task\<close> prints the "Running task" line exactly when the execution counter is
  zero after the increment; a task whose counter is zero before the run, as it is on the first
  execution, gets no such line.
\<close>

theorem run_task_start_message:
  assumes "run_task K (Some p) s = Inr s'" and "tasks s p = Some t"
  shows "(filter is_running_msg (events s') \<noteq> filter is_running_msg (events s)
            \<longleftrightarrow> exec_count t + 1 = 0)
       \<and> (exec_count t = 0
            \<longrightarrow> filter is_running_msg (events s') = filter is_running_msg (events s))"
  using assms
  by (auto simp: run_task_def wait_for_task_state_def prim_defs Let_def
      split: option.splits sum.splits if_splits)

theorem run_task_start_message_witness:
  "\<exists>s'. run_task demo_platform (Some 11) demo_queued = Inr s'
     \<and> filter is_running_msg (events s') = filter is_running_msg (events demo_queued)"
proof -
  obtain s' where r: "run_task demo_platform (Some 11) demo_queued = Inr s'"
    using run_task_scheduled [OF demo_queued_task _ _ demo_queued_cpus, of demo_platform] by simp
  from run_task_start_message [OF r demo_queued_task] r show ?thesis
    by (simp add: demo_kernel_task_def)
qed

subsection \<open>Submission\<close>

text \<open>
  Claim C8. For a task in state READY, \<open>schedule_task\<close> with a null processor returns the
  missing-target error and changes neither the tasks nor any queue (it only prints the
  warning); with an existing processor it returns success, appends the task at the tail of
  that processor's queue, sets the task's processor reference and makes the task SCHEDULED.
\<close>

theorem schedule_task_outcomes:
  assumes "tasks s p = Some t" and "state t = TASK_STATE_READY"
  shows "schedule_task (Some p) None s = Inr (NEG_EEXIST, printk (MSG_WARN_NO_CPU (name t)) s)
     \<and> tasks (printk (MSG_WARN_NO_CPU (name t)) s) = tasks s
     \<and> cpus (printk (MSG_WARN_NO_CPU (name t)) s) = cpus s
     \<and> (cpus s c = Some q \<longrightarrow>
          (\<exists>s'. schedule_task (Some p) (Some c) s = Inr (ESUCCESS, s')
             \<and> cpus s' = (cpus s)(c \<mapsto> q\<lparr>task_queue := task_queue q @ [p]\<rparr>)
             \<and> tasks s' = (tasks s)(p \<mapsto> t\<lparr>cpu := Some c, state := TASK_STATE_SCHEDULED\<rparr>)))"
  using assms
  by (auto simp: schedule_task_def prim_defs Let_def)

theorem schedule_task_outcomes_witness:
  "schedule_task (Some 11) None demo_ready
     = Inr (NEG_EEXIST, printk (MSG_WARN_NO_CPU ''t'') demo_ready)
   \<and> (\<exists>s'. schedule_task (Some 11) (Some 100) demo_ready = Inr (ESUCCESS, s')
          \<and> cpus s' 100 = Some \<lparr>cpu_id = 0, task_queue = [11]\<rparr>)"
  using schedule_task_outcomes [OF demo_ready_task, of 100 "\<lparr>cpu_id = 0, task_queue = []\<rparr>"]
  by (auto simp: demo_ready_cpus demo_kernel_task_def)

subsection \<open>Preparation and construction\<close>

text \<open>
  The only value that \<open>prepare_task\<close> returns for a non-null handle is success: the one
  failure return is taken for a null handle, and the result of the page allocation is stored
  without a test.
\<close>

lemma prepare_task_return_code:
  assumes "prepare_task (Some p) nm fn ar ty page s = Inr (rc, s')"
  shows "rc = ESUCCESS"
  using assms
  by (auto simp: prepare_task_def prim_defs Let_def split: option.splits if_splits)

text \<open>
  Claim C9. Whenever \<open>prepare_task\<close> returns on a non-null handle it returns success,
  whatever the page allocation returned; and it does return, leaving in the task's stack
  field what the allocation returned, for every task in state NEW or READY, the only tasks
  on which it does not stop at its assertion. \<open>new_task\<close>, its one caller, passes the task
  that \<open>create_task\<close> has just built, which is NEW: so when \<open>create_task\<close> has returned a
  task, the preparation inside \<open>new_task\<close> succeeds and the task is returned without the
  cleanup branch being taken, and \<open>new_task\<close> returns exactly what the allocation of the
  task object returned, so no task if and only if that allocation failed.
\<close>

theorem prepare_task_always_succeeds:
  "(\<forall>rc s'. prepare_task (Some p) nm fn ar ty page s = Inr (rc, s') \<longrightarrow> rc = ESUCCESS)
   \<and> (tasks s p = Some t \<and> state_num (state t) \<le> state_num TASK_STATE_READY
      \<longrightarrow> (\<exists>s' t'. prepare_task (Some p) nm fn ar ty page s = Inr (ESUCCESS, s')
              \<and> tasks s' p = Some t' \<and> state t' = TASK_STATE_READY
              \<and> (ty = TASK_TYPE_USER \<longrightarrow> stack t' = page)))
   \<and> (\<forall>p1 s1. create_task K alloc s = Inr (Some p1, s1)
        \<longrightarrow> (\<exists>s2. prepare_task (Some p1) nm fn ar ty page s1 = Inr (ESUCCESS, s2)
                 \<and> new_task K nm fn ar ty alloc page s = Inr (Some p1, s2)))
   \<and> (\<exists>s'. new_task K nm fn ar ty alloc page s = Inr (alloc, s'))
   \<and> ((\<exists>s'. new_task K nm fn ar ty alloc page s = Inr (None, s')) \<longleftrightarrow> alloc = None)"
proof (intro conjI)
  show "\<forall>rc s'. prepare_task (Some p) nm fn ar ty page s = Inr (rc, s') \<longrightarrow> rc = ESUCCESS"
    using prepare_task_return_code by blast
next
  show "tasks s p = Some t \<and> state_num (state t) \<le> state_num TASK_STATE_READY
      \<longrightarrow> (\<exists>s' t'. prepare_task (Some p) nm fn ar ty page s = Inr (ESUCCESS, s')
              \<and> tasks s' p = Some t' \<and> state t' = TASK_STATE_READY
              \<and> (ty = TASK_TYPE_USER \<longrightarrow> stack t' = page))"
    by (simp add: prepare_task_ready)
next
  show "\<forall>p1 s1. create_task K alloc s = Inr (Some p1, s1)
        \<longrightarrow> (\<exists>s2. prepare_task (Some p1) nm fn ar ty page s1 = Inr (ESUCCESS, s2)
                 \<and> new_task K nm fn ar ty alloc page s = Inr (Some p1, s2))"
  proof (intro allI impI)
    fix p1 s1
    assume c: "create_task K alloc s = Inr (Some p1, s1)"
    then have a: "alloc = Some p1"
      by (cases alloc) (auto simp: create_task_def Let_def split: sum.splits option.splits)
    from create_task_some [of K p1 s] c a
    have "tasks s1 p1 = Some (zeroed_task\<lparr>task_id := next_tid s, gid := TASK_GROUP_ALL K,
                                    repeat := TASK_REPEAT_ONCE K\<rparr>)"
      by auto
    then have "\<exists>s2. prepare_task (Some p1) nm fn ar ty page s1 = Inr (ESUCCESS, s2)"
      by (simp add: prepare_task_ready zeroed_task_def)
    then show "\<exists>s2. prepare_task (Some p1) nm fn ar ty page s1 = Inr (ESUCCESS, s2)
                 \<and> new_task K nm fn ar ty alloc page s = Inr (Some p1, s2)"
      using c by (auto simp: new_task_def)
  qed
next
  show r: "\<exists>s'. new_task K nm fn ar ty alloc page s = Inr (alloc, s')"
  proof (cases alloc)
    case None
    then show ?thesis by (simp add: new_task_def create_task_def)
  next
    case (Some p1)
    obtain s1 where c: "create_task K (Some p1) s = Inr (Some p1, s1)"
      and t: "tasks s1 p1 = Some (zeroed_task\<lparr>task_id := next_tid s, gid := TASK_GROUP_ALL K,
                                    repeat := TASK_REPEAT_ONCE K\<rparr>)"
      using create_task_some [of K p1 s] by blast
    from t have "\<exists>s2. prepare_task (Some p1) nm fn ar ty page s1 = Inr (ESUCCESS, s2)"
      by (simp add: prepare_task_ready zeroed_task_def)
    with c Some show ?thesis by (auto simp: new_task_def)
  qed
  then show "(\<exists>s'. new_task K nm fn ar ty alloc page s = Inr (None, s')) \<longleftrightarrow> alloc = None"
    by auto
qed

theorem prepare_task_always_succeeds_witness:
  "tasks demo_ready 11 \<noteq> None
   \<and> (\<exists>s' t'. prepare_task (Some 11) ''u'' 8 0 TASK_TYPE_USER None demo_ready = Inr (ESUCCESS, s')
          \<and> tasks s' 11 = Some t' \<and> stack t' = None)
   \<and> (\<exists>s'. new_task demo_platform ''u'' 8 0 TASK_TYPE_USER (Some 12) None demo_ready
              = Inr (Some 12, s'))
   \<and> (\<exists>s'. new_task demo_platform ''u'' 8 0 TASK_TYPE_USER None None demo_ready
              = Inr (None, s'))"
proof -
  let ?t = "the (tasks demo_ready 11)"
  have a: "tasks demo_ready 11 = Some ?t"
    and b: "state_num (state ?t) \<le> state_num TASK_STATE_READY"
    by (simp_all add: demo_ready_task demo_kernel_task_def)
  have c: "tasks demo_ready 11 \<noteq> None"
    by (simp add: demo_ready_task)
  from prepare_task_always_succeeds [of 11 "''u''" 8 0 TASK_TYPE_USER None demo_ready ?t
          demo_platform "Some 12"] a b
  have d: "\<exists>s' t'. prepare_task (Some 11) ''u'' 8 0 TASK_TYPE_USER None demo_ready = Inr (ESUCCESS, s')
          \<and> tasks s' 11 = Some t' \<and> stack t' = None"
    and e: "\<exists>s'. new_task demo_platform ''u'' 8 0 TASK_TYPE_USER (Some 12) None demo_ready
              = Inr (Some 12, s')"
    by blast+
  from prepare_task_always_succeeds [of 11 "''u''" 8 0 TASK_TYPE_USER None demo_ready ?t
          demo_platform None]
  have f: "\<exists>s'. new_task demo_platform ''u'' 8 0 TASK_TYPE_USER None None demo_ready
              = Inr (None, s')"
    by blast
  from c d e f show ?thesis by blast
qed

subsection \<open>What \<open>destroy_task\<close> reads first\<close>

text \<open>
  \<open>destroy_task\<close> takes the queue lock through the task's processor reference before it does
  anything else. The reference is null until \<open>schedule_task\<close> sets it.
\<close>

lemma destroy_task_null_cpu:
  assumes "tasks s p = Some t" and "cpu t = None"
  shows "destroy_task (Some p) s = Inl NULL_DEREF"
  using assms by (simp add: destroy_task_def)

lemma new_task_null_cpu:
  "\<exists>s1 t. new_task K nm fn ar ty (Some p) page s = Inr (Some p, s1)
      \<and> tasks s1 p = Some t \<and> cpu t = None"
  using new_task_some [of K nm fn ar ty p page s] by auto

subsection \<open>The stack of a user task\<close>

text \<open>
  Claim C7 does not hold of the code. \<open>prepare_task\<close> stores what \<open>get_free_page_top\<close>
  returned without looking at it, so a user task whose page allocation failed is READY and is
  returned by \<open>new_task\<close> with a null stack.
\<close>

theorem user_task_null_stack:
  "\<exists>s1 t. new_task K nm fn ar TASK_TYPE_USER (Some p) None s = Inr (Some p, s1)
      \<and> tasks s1 p = Some t \<and> type t = TASK_TYPE_USER \<and> state t = TASK_STATE_READY
      \<and> stack t = None"
  using new_task_some [of K nm fn ar TASK_TYPE_USER p None s] by auto

subsection \<open>The run loop, pass after pass\<close>

lemma run_passes_add:
  "run_passes K (a + b) c s =
     (case run_passes K a c s of Inl e \<Rightarrow> Inl e | Inr s' \<Rightarrow> run_passes K b c s')"
  by (induction a arbitrary: s) (auto split: sum.splits)

lemma passes_gone:
  assumes "queue_ok c p pgo s" and "p \<notin> set (queue_of c s)"
  shows "\<exists>s'. run_passes K k c s = Inr s' \<and> queue_ok c p pgo s' \<and> p \<notin> set (queue_of c s')
           \<and> tasks s' p = tasks s p
           \<and> set (queue_of c s') \<subseteq> set (queue_of c s)
           \<and> task_trace p pgo (events s') = task_trace p pgo (events s)"
  using assms
proof (induction k arbitrary: s)
  case 0
  then show ?case by simp
next
  case (Suc k)
  from pass_gone [OF Suc.prems, of K]
  obtain s1 where r: "run_pass K c s = Inr s1" and ok: "queue_ok c p pgo s1"
    and n: "p \<notin> set (queue_of c s1)" and t: "tasks s1 p = tasks s p"
    and sub: "set (queue_of c s1) \<subseteq> set (queue_of c s)"
    and tr: "task_trace p pgo (events s1) = task_trace p pgo (events s)"
    by blast
  from Suc.IH [OF ok n] r t sub tr show ?case by auto
qed

lemma run_tasks_passes:
  assumes "run_tasks K n c s = Some r"
  shows "\<exists>k. 0 < k \<and> k \<le> n \<and> r = run_passes K k c s
           \<and> (\<forall>s'. r = Inr s' \<longrightarrow> queue_of c s' = [])"
  using assms
proof (induction n arbitrary: s)
  case 0
  then show ?case by simp
next
  case (Suc n)
  show ?case
  proof (cases "run_pass K c s")
    case (Inl e)
    with Suc.prems have re: "r = Inl e" by simp
    show ?thesis unfolding re by (intro exI [of _ 1]) (simp add: Inl)
  next
    case (Inr s1)
    show ?thesis
    proof (cases "queue_of c s1 = []")
      case True
      with Inr Suc.prems have "r = Inr s1" by simp
      with Inr True show ?thesis by (intro exI [of _ 1]) simp
    next
      case False
      with Inr Suc.prems have "run_tasks K n c s1 = Some r" by simp
      from Suc.IH [OF this] obtain k where "0 < k" "k \<le> n" "r = run_passes K k c s1"
        "\<forall>s'. r = Inr s' \<longrightarrow> queue_of c s' = []" by blast
      with Inr show ?thesis by (intro exI [of _ "Suc k"]) simp
    qed
  qed
qed

text \<open>The run loop cannot return while the task is queued, and once the task is gone
  nothing that follows touches it.\<close>

lemma run_tasks_after:
  assumes alive: "\<forall>i<m. \<exists>si. run_passes K i c s = Inr si \<and> p \<in> set (queue_of c si)"
    and fin: "run_passes K m c s = Inr sm" and ok: "queue_ok c p pgo sm"
    and gone: "p \<notin> set (queue_of c sm)"
    and ret: "run_tasks K fuel c s = Some r"
  shows "\<exists>s'. r = Inr s' \<and> tasks s' p = tasks sm p \<and> queue_of c s' = []
           \<and> task_trace p pgo (events s') = task_trace p pgo (events sm)"
proof -
  from run_tasks_passes [OF ret] obtain k where k: "0 < k" "r = run_passes K k c s"
    and e: "\<forall>s'. r = Inr s' \<longrightarrow> queue_of c s' = []" by blast
  have "m \<le> k"
  proof (rule ccontr)
    assume "\<not> m \<le> k"
    then have "k < m" by simp
    with alive obtain sk where "run_passes K k c s = Inr sk" "p \<in> set (queue_of c sk)" by blast
    with k e show False by auto
  qed
  then obtain d where d: "k = m + d" using le_Suc_ex by blast
  from passes_gone [OF ok gone, of K d]
  obtain s' where "run_passes K d c sm = Inr s'" "tasks s' p = tasks sm p"
    "task_trace p pgo (events s') = task_trace p pgo (events sm)" by blast
  with k d fin e show ?thesis by (simp add: run_passes_add)
qed

lemma run_passes_2:
  "run_passes K 2 c s = (case run_pass K c s of Inl e \<Rightarrow> Inl e | Inr s1 \<Rightarrow> run_pass K c s1)"
  by (simp add: numeral_2_eq_2 split: sum.splits)

text \<open>Run, then retire: the last two passes of a task whose repeat policy is ONCE.\<close>

lemma last_round:
  assumes q: "queued c p pgo s t" and st: "state t = TASK_STATE_SCHEDULED"
    and once: "repeat t = TASK_REPEAT_ONCE K"
  shows "\<exists>s1 s2. run_pass K c s = Inr s1 \<and> run_pass K c s1 = Inr s2
     \<and> queued c p pgo s1 (t\<lparr>exec_count := exec_count t + 1, result := invoke K t, state := TASK_STATE_DONE\<rparr>)
     \<and> queue_ok c p pgo s2 \<and> tasks s2 p = None \<and> p \<notin> set (queue_of c s2)
     \<and> set (queue_of c s2) \<subseteq> set (queue_of c s)
     \<and> task_trace p pgo (events s2) = task_trace p pgo (events s) @ run_evs p @ free_evs p pgo"
proof -
  let ?t1 = "t\<lparr>exec_count := exec_count t + 1, result := invoke K t, state := TASK_STATE_DONE\<rparr>"
  from pass_run [OF q st, of K]
  obtain s1 where r1: "run_pass K c s = Inr s1" and q1: "queued c p pgo s1 ?t1"
    and sub1: "set (queue_of c s1) \<subseteq> set (queue_of c s)"
    and t1: "task_trace p pgo (events s1) = task_trace p pgo (events s) @ run_evs p"
    by blast
  have "state ?t1 = TASK_STATE_DONE" "repeat ?t1 = TASK_REPEAT_ONCE K" using once by simp_all
  from pass_retire [OF q1 this]
  obtain s2 where "run_pass K c s1 = Inr s2" "queue_ok c p pgo s2" "tasks s2 p = None"
    "p \<notin> set (queue_of c s2)" "set (queue_of c s2) \<subseteq> set (queue_of c s1)"
    "task_trace p pgo (events s2) = task_trace p pgo (events s1) @ free_evs p pgo"
    by blast
  with r1 q1 sub1 t1 show ?thesis by auto
qed











subsection \<open>A task with a finite repeat count\<close>



subsection \<open>A task that runs once\<close>

text \<open>
  Claim C4. A task that is queued and SCHEDULED with the repeat policy ONCE and an execution
  counter of zero is run by the next pass of the run loop, which leaves it DONE, still queued,
  with the counter at 1; the pass after that retires it: it is unlinked from the queue, its
  stack page, if it has one, is released and its object freed, each exactly once, after exactly
  one call of its function. Whenever \<open>run_tasks\<close> returns, this has happened.
\<close>

theorem once_task_retired:
  assumes q: "queued c p (stack t) s t" and st: "state t = TASK_STATE_SCHEDULED"
    and once: "repeat t = TASK_REPEAT_ONCE K" and ex: "exec_count t = 0"
  shows "(\<exists>s1 s2. run_pass K c s = Inr s1 \<and> run_pass K c s1 = Inr s2
            \<and> tasks s1 p = Some (t\<lparr>exec_count := 1, result := invoke K t, state := TASK_STATE_DONE\<rparr>)
            \<and> p \<in> set (queue_of c s1)
            \<and> tasks s2 p = None \<and> p \<notin> set (queue_of c s2)
            \<and> task_trace p (stack t) (events s2)
                 = task_trace p (stack t) (events s) @ run_evs p @ free_evs p (stack t))
     \<and> (\<forall>fuel r. run_tasks K fuel c s = Some r \<longrightarrow>
           (\<exists>s'. r = Inr s' \<and> tasks s' p = None \<and> p \<notin> set (queue_of c s')
              \<and> task_trace p (stack t) (events s')
                   = task_trace p (stack t) (events s) @ run_evs p @ free_evs p (stack t)))"
proof -
  let ?t1 = "t\<lparr>exec_count := exec_count t + 1, result := invoke K t, state := TASK_STATE_DONE\<rparr>"
  from last_round [OF q st once]
  obtain s1 s2 where p1: "run_pass K c s = Inr s1" and p2: "run_pass K c s1 = Inr s2"
    and q1: "queued c p (stack t) s1 ?t1"
    and ok2: "queue_ok c p (stack t) s2" and g2: "tasks s2 p = None"
    and n2: "p \<notin> set (queue_of c s2)"
    and tr: "task_trace p (stack t) (events s2)
               = task_trace p (stack t) (events s) @ run_evs p @ free_evs p (stack t)"
    by blast
  from q1 ex have t1: "tasks s1 p = Some (t\<lparr>exec_count := 1, result := invoke K t, state := TASK_STATE_DONE\<rparr>)"
    and i1: "p \<in> set (queue_of c s1)"
    by (simp_all add: queued_def)
  have a2: "run_passes K 2 c s = Inr s2" using p1 p2 by (simp add: run_passes_2)
  have alive: "\<forall>i<2. \<exists>si. run_passes K i c s = Inr si \<and> p \<in> set (queue_of c si)"
  proof (intro allI impI)
    fix i :: nat assume "i < 2"
    then consider "i = 0" | "i = 1" by force
    then show "\<exists>si. run_passes K i c s = Inr si \<and> p \<in> set (queue_of c si)"
    proof cases
      case 1 with q show ?thesis by (simp add: queued_def)
    next
      case 2 with p1 i1 show ?thesis by simp
    qed
  qed
  have "\<exists>s'. r = Inr s' \<and> tasks s' p = None \<and> p \<notin> set (queue_of c s')
              \<and> task_trace p (stack t) (events s')
                   = task_trace p (stack t) (events s) @ run_evs p @ free_evs p (stack t)"
    if "run_tasks K fuel c s = Some r" for fuel r
    using run_tasks_after [OF alive a2 ok2 n2 that] g2 tr by auto
  with p1 p2 t1 i1 g2 n2 tr show ?thesis by blast
qed

theorem once_task_retired_witness:
  "\<exists>s1 s2. run_pass demo_platform 100 demo_two = Inr s1 \<and> run_pass demo_platform 100 s1 = Inr s2
      \<and> tasks s2 12 = None \<and> 12 \<notin> set (queue_of 100 s2)
      \<and> task_trace 12 (Some 4096) (events s2) = task_trace 12 (Some 4096) (events demo_two)
           @ [EV_STATE 12 TASK_STATE_SCHEDULED TASK_STATE_RUNNING, EV_CALL 12,
              EV_STATE 12 TASK_STATE_RUNNING TASK_STATE_DONE, EV_PUT_PAGE 4096, EV_KFREE 12]"
proof -
  have q: "queued 100 12 (stack demo_user_task) demo_two demo_user_task"
    by (simp add: queued_def queue_ok_def queue_of_def bystander_def demo_two_def
        demo_user_task_def demo_kernel_task_def)
  have st: "state demo_user_task = TASK_STATE_SCHEDULED" and e: "exec_count demo_user_task = 0"
    and pg: "stack demo_user_task = Some 4096"
    by (simp_all add: demo_user_task_def)
  have o: "repeat demo_user_task = TASK_REPEAT_ONCE demo_platform"
    by (simp add: demo_platform_def demo_user_task_def)
  from once_task_retired [OF q st o e] show ?thesis
    unfolding pg by (simp add: run_evs_def free_evs_def) blast
qed

subsection \<open>From construction to destruction with the default policy\<close>

text \<open>
  Claim C10. \<open>create_task\<close>, and so \<open>new_task\<close>, returns a task whose repeat policy is the
  ONCE sentinel. Submitted as it is to a processor with a well-formed queue, the task goes
  through NEW, READY, SCHEDULED, RUNNING, DONE with exactly one call of its function and is
  then freed, in two passes of the run loop; \<open>run_tasks\<close> cannot return before, and returns
  after these two passes when the task is alone on the queue.
\<close>

theorem default_once_lifecycle:
  assumes ok: "queue_ok c p None s" and fresh: "p \<notin> set (queue_of c s)"
  shows "(\<exists>s0 t0. create_task K (Some p) s = Inr (Some p, s0) \<and> tasks s0 p = Some t0
            \<and> repeat t0 = TASK_REPEAT_ONCE K)
     \<and> (\<exists>s1 t1 s2 s4. new_task K nm fn ar ty (Some p) page s = Inr (Some p, s1)
            \<and> tasks s1 p = Some t1 \<and> repeat t1 = TASK_REPEAT_ONCE K
            \<and> schedule_task (Some p) (Some c) s1 = Inr (ESUCCESS, s2)
            \<and> run_passes K 2 c s2 = Inr s4
            \<and> tasks s4 p = None \<and> p \<notin> set (queue_of c s4)
            \<and> task_trace p None (events s4) = task_trace p None (events s) @
                 [EV_STATE p TASK_STATE_NEW TASK_STATE_NEW,
                  EV_STATE p TASK_STATE_NEW TASK_STATE_READY,
                  EV_STATE p TASK_STATE_READY TASK_STATE_SCHEDULED,
                  EV_STATE p TASK_STATE_SCHEDULED TASK_STATE_RUNNING,
                  EV_CALL p,
                  EV_STATE p TASK_STATE_RUNNING TASK_STATE_DONE,
                  EV_KFREE p]
            \<and> (\<forall>fuel r. run_tasks K fuel c s2 = Some r \<longrightarrow>
                  (\<exists>s'. r = Inr s' \<and> tasks s' p = None
                     \<and> task_trace p None (events s') = task_trace p None (events s4)))
            \<and> (queue_of c s = [] \<longrightarrow> (\<forall>n. run_tasks K (Suc (Suc n)) c s2 = Some (Inr s4))))"
proof -
  let ?t1 = "\<lparr>task_id = next_tid s, gid = TASK_GROUP_ALL K, type = ty,
              state = TASK_STATE_READY, repeat = TASK_REPEAT_ONCE K, exec_count = 0, cpu = None,
              stack = (if ty = TASK_TYPE_USER then page else None), name = nm, func = fn,
              arg = ar, result = 0\<rparr>"
  let ?t2 = "?t1\<lparr>cpu := Some c, state := TASK_STATE_SCHEDULED\<rparr>"
  from ok obtain cq where cq: "cpus s c = Some cq" by (auto simp: queue_ok_def)
  obtain s1 where n1: "new_task K nm fn ar ty (Some p) page s = Inr (Some p, s1)"
    and t1: "tasks s1 p = Some ?t1" and c1: "cpus s1 = cpus s"
    and o1: "\<forall>r. r \<noteq> p \<longrightarrow> tasks s1 r = tasks s r"
    and e1: "events s1 = events s @ [EV_KZALLOC p, EV_STATE p TASK_STATE_NEW TASK_STATE_NEW]
              @ (if ty = TASK_TYPE_USER then [EV_GET_PAGE page] else [])
              @ [EV_STATE p TASK_STATE_NEW TASK_STATE_READY]"
    by (simp add: new_task_eq)
  from c1 cq have cq1: "cpus s1 c = Some cq" by simp
  have rd: "state ?t1 = TASK_STATE_READY" by simp
  obtain s2 where n2: "schedule_task (Some p) (Some c) s1 = Inr (ESUCCESS, s2)"
    and t2: "tasks s2 p = Some ?t2"
    and c2: "cpus s2 c = Some (cq\<lparr>task_queue := task_queue cq @ [p]\<rparr>)"
    and o2: "\<forall>r. r \<noteq> p \<longrightarrow> tasks s2 r = tasks s1 r"
    and e2: "events s2 = events s1 @ [EV_PRINTK (MSG_SCHEDULING (cpu_id cq) (name ?t1) (task_id ?t1) (repeat ?t1)),
               EV_LOCK c, EV_STATE p TASK_STATE_READY TASK_STATE_SCHEDULED, EV_UNLOCK c]"
    by (simp add: schedule_task_eq [OF t1 rd cq1])
  have q2: "queue_of c s2 = queue_of c s @ [p]"
    using c2 cq by (simp add: queue_of_def)
  have "queue_ok c p None s2"
    unfolding queue_ok_def
  proof (intro conjI ballI impI)
    show "cpus s2 c \<noteq> None" using c2 by simp
    show "distinct (queue_of c s2)" using q2 ok fresh by (simp add: queue_ok_def)
    fix r assume "r \<in> set (queue_of c s2)" and ne: "r \<noteq> p"
    with q2 have "r \<in> set (queue_of c s)" by simp
    with ok ne have "bystander c None s r" by (simp add: queue_ok_def)
    moreover have "tasks s2 r = tasks s r" using o1 o2 ne by simp
    ultimately show "bystander c None s2 r" using bystander_cong by blast
  qed
  with q2 t2 have qd: "queued c p None s2 ?t2" by (simp add: queued_def)
  have "state ?t2 = TASK_STATE_SCHEDULED" "repeat ?t2 = TASK_REPEAT_ONCE K" by simp_all
  from last_round [OF qd this]
  obtain s3 s4 where p3: "run_pass K c s2 = Inr s3" and p4: "run_pass K c s3 = Inr s4"
    and i3: "p \<in> set (queue_of c s3)"
    and ok4: "queue_ok c p None s4" and g4: "tasks s4 p = None"
    and n4: "p \<notin> set (queue_of c s4)"
    and sub4: "set (queue_of c s4) \<subseteq> set (queue_of c s2)"
    and tr4: "task_trace p None (events s4) = task_trace p None (events s2) @ run_evs p @ free_evs p None"
    unfolding queued_def by blast
  have a4: "run_passes K 2 c s2 = Inr s4" using p3 p4 by (simp add: run_passes_2)
  have tr: "task_trace p None (events s4) = task_trace p None (events s) @
                 [EV_STATE p TASK_STATE_NEW TASK_STATE_NEW,
                  EV_STATE p TASK_STATE_NEW TASK_STATE_READY,
                  EV_STATE p TASK_STATE_READY TASK_STATE_SCHEDULED,
                  EV_STATE p TASK_STATE_SCHEDULED TASK_STATE_RUNNING,
                  EV_CALL p,
                  EV_STATE p TASK_STATE_RUNNING TASK_STATE_DONE,
                  EV_KFREE p]"
    unfolding tr4 e2 e1 by (simp add: run_evs_def free_evs_def)
  have alive: "\<forall>i<2. \<exists>si. run_passes K i c s2 = Inr si \<and> p \<in> set (queue_of c si)"
  proof (intro allI impI)
    fix i :: nat assume "i < 2"
    then consider "i = 0" | "i = 1" by force
    then show "\<exists>si. run_passes K i c s2 = Inr si \<and> p \<in> set (queue_of c si)"
    proof cases
      case 1 with q2 show ?thesis by simp
    next
      case 2 with p3 i3 show ?thesis by simp
    qed
  qed
  have rt: "\<forall>fuel r. run_tasks K fuel c s2 = Some r \<longrightarrow>
                  (\<exists>s'. r = Inr s' \<and> tasks s' p = None
                     \<and> task_trace p None (events s') = task_trace p None (events s4))"
    using run_tasks_after [OF alive a4 ok4 n4] g4 by auto
  have lone: "queue_of c s = [] \<longrightarrow> (\<forall>n. run_tasks K (Suc (Suc n)) c s2 = Some (Inr s4))"
  proof (intro impI allI)
    fix n assume "queue_of c s = []"
    with q2 sub4 n4 have "queue_of c s4 = []" by (cases "queue_of c s4") auto
    moreover from i3 have "queue_of c s3 \<noteq> []" by auto
    ultimately show "run_tasks K (Suc (Suc n)) c s2 = Some (Inr s4)"
      using p3 p4 by simp
  qed
  have "\<exists>s0 t0. create_task K (Some p) s = Inr (Some p, s0) \<and> tasks s0 p = Some t0
            \<and> repeat t0 = TASK_REPEAT_ONCE K"
    using create_task_some [of K p s] by auto
  with n1 t1 n2 a4 g4 n4 tr rt lone show ?thesis by auto
qed

theorem default_once_lifecycle_witness:
  "\<exists>s1 s2 s4. new_task demo_platform ''u'' 8 0 TASK_TYPE_USER (Some 12) (Some 4096) demo_queued
        = Inr (Some 12, s1)
      \<and> schedule_task (Some 12) (Some 100) s1 = Inr (ESUCCESS, s2)
      \<and> run_passes demo_platform 2 100 s2 = Inr s4 \<and> tasks s4 12 = None"
proof -
  have ok: "queue_ok 100 12 None demo_queued"
    by (simp add: queue_ok_def queue_of_def bystander_def demo_queued_def demo_kernel_task_def)
  have fr: "12 \<notin> set (queue_of 100 demo_queued)"
    by (simp add: queue_of_def demo_queued_def)
  from default_once_lifecycle [OF ok fr, of demo_platform "''u''" 8 0 TASK_TYPE_USER "Some 4096"]
  show ?thesis by blast
qed

subsection \<open>The order of state changes\<close>

lemma create_task_steps:
  assumes "create_task K alloc s = Inr (r, s')"
  shows "\<exists>evs. events s' = events s @ evs
     \<and> (\<forall>p a b. EV_STATE p a b \<in> set evs \<longrightarrow> a = TASK_STATE_NEW \<and> b = TASK_STATE_NEW)"
  using assms
  by (cases alloc)
     (auto simp: create_task_def prim_defs Let_def zeroed_task_def split: option.splits sum.splits)

lemma prepare_task_steps:
  assumes "prepare_task task nm fn ar ty page s = Inr (r, s')"
  shows "\<exists>evs. events s' = events s @ evs
     \<and> (\<forall>p a b. EV_STATE p a b \<in> set evs \<longrightarrow>
           (a = TASK_STATE_NEW \<or> a = TASK_STATE_READY) \<and> b = TASK_STATE_READY)"
proof (cases task)
  case None
  with assms show ?thesis by (simp add: prepare_task_def)
next
  case (Some p)
  show ?thesis
  proof (cases "tasks s p")
    case None
    with assms Some show ?thesis by (simp add: prepare_task_def)
  next
    case (Some t)
    have le: "state_num (state t) \<le> state_num TASK_STATE_READY"
      using assms \<open>task = Some p\<close> Some by (auto simp: prepare_task_def split: if_splits)
    then have "state t = TASK_STATE_NEW \<or> state t = TASK_STATE_READY"
      by (cases "state t") simp_all
    with assms \<open>task = Some p\<close> show ?thesis
      by (auto simp: prepare_task_ready [OF Some le])
  qed
qed

lemma schedule_task_steps:
  assumes "schedule_task task c s = Inr (r, s')"
  shows "\<exists>evs. events s' = events s @ evs
     \<and> (\<forall>p a b. EV_STATE p a b \<in> set evs \<longrightarrow>
           a = TASK_STATE_READY \<and> b = TASK_STATE_SCHEDULED)"
  using assms
  by (auto simp: schedule_task_def prim_defs Let_def split: option.splits sum.splits if_splits)

lemma run_task_steps:
  assumes "run_task K task s = Inr s'"
  shows "\<exists>evs. events s' = events s @ evs
     \<and> (\<forall>p a b. EV_STATE p a b \<in> set evs \<longrightarrow>
           (a = TASK_STATE_SCHEDULED \<and> b = TASK_STATE_RUNNING)
           \<or> (a = TASK_STATE_RUNNING \<and> b = TASK_STATE_DONE))"
  using assms
  by (auto simp: run_task_def wait_for_task_state_def prim_defs Let_def
      split: option.splits sum.splits if_splits)

lemma destroy_task_steps:
  assumes "destroy_task task s = Inr s'"
  shows "\<exists>evs. events s' = events s @ evs \<and> (\<forall>p a b. EV_STATE p a b \<notin> set evs)"
  using assms
  by (auto simp: destroy_task_def prim_defs Let_def split: option.splits)

lemma process_task_repeat_steps:
  assumes "process_task_repeat K p s = Inr s'" and "tasks s p = Some t"
  shows "\<exists>evs. events s' = events s @ evs
     \<and> (\<forall>q a b. EV_STATE q a b \<in> set evs \<longrightarrow>
           q = p \<and> a = state t \<and> b = TASK_STATE_SCHEDULED \<and> repeat t \<noteq> TASK_REPEAT_ONCE K)"
proof (cases "repeat t = TASK_REPEAT_ONCE K")
  case True
  with assms obtain s0 where "destroy_task (Some p) s0 = Inr s'" and "events s0 = events s @ [EV_PRINTK (MSG_FINISHED (type t) (name t) (cpu_id (the (cpus s (the (cpu t))))) (result t) (exec_count t))]"
    by (auto simp: process_task_repeat_def prim_defs split: option.splits)
  with destroy_task_steps [of "Some p" s0 s'] show ?thesis by auto
next
  case False
  with assms show ?thesis
    by (auto simp: process_task_repeat_def prim_defs split: if_splits)
qed

lemma dispatch_steps:
  assumes "dispatch K p s = Inr s'"
  shows "\<exists>evs. events s' = events s @ evs
     \<and> (\<forall>q a b. EV_STATE q a b \<in> set evs \<longrightarrow>
           (a = TASK_STATE_SCHEDULED \<and> b = TASK_STATE_RUNNING)
           \<or> (a = TASK_STATE_RUNNING \<and> b = TASK_STATE_DONE)
           \<or> (a = TASK_STATE_DONE \<and> b = TASK_STATE_SCHEDULED \<and> q = p
               \<and> (\<exists>t. tasks s p = Some t \<and> state t = TASK_STATE_DONE
                      \<and> repeat t \<noteq> TASK_REPEAT_ONCE K)))"
proof -
  from assms obtain t where t: "tasks s p = Some t"
    by (auto simp: dispatch_def split: option.splits)
  from assms t consider
      (run) "state t = TASK_STATE_SCHEDULED" "run_task K (Some p) s = Inr s'"
    | (retire) "state t = TASK_STATE_DONE" "process_task_repeat K p s = Inr s'"
    by (cases "state t") (auto simp: dispatch_def)
  then show ?thesis
  proof cases
    case run
    from run_task_steps [OF run(2)] show ?thesis by blast
  next
    case retire
    from process_task_repeat_steps [OF retire(2) t] retire(1) t show ?thesis by auto
  qed
qed

lemma exec_op_steps:
  assumes "exec_op K x s = Inr s'"
  shows "\<exists>evs. events s' = events s @ evs
     \<and> (\<forall>p a b. EV_STATE p a b \<in> set evs \<longrightarrow>
           legal_step a b
           \<and> (a = TASK_STATE_DONE \<longrightarrow> b = TASK_STATE_SCHEDULED \<and> x = OP_DISPATCH p
                 \<and> (\<exists>t. tasks s p = Some t \<and> state t = TASK_STATE_DONE
                        \<and> repeat t \<noteq> TASK_REPEAT_ONCE K)))"
proof (cases x)
  case (OP_CREATE alloc)
  with assms obtain r where "create_task K alloc s = Inr (r, s')"
    by (auto split: sum.splits)
  from create_task_steps [OF this] show ?thesis by (fastforce simp: legal_step_def)
next
  case (OP_PREPARE task nm fn ar ty page)
  with assms obtain r where "prepare_task task nm fn ar ty page s = Inr (r, s')"
    by (auto split: sum.splits)
  from prepare_task_steps [OF this] show ?thesis by (fastforce simp: legal_step_def)
next
  case (OP_SUBMIT task c)
  with assms obtain r where "schedule_task task c s = Inr (r, s')"
    by (auto split: sum.splits)
  from schedule_task_steps [OF this] show ?thesis by (fastforce simp: legal_step_def)
next
  case (OP_RUN task)
  with assms have "run_task K task s = Inr s'" by simp
  from run_task_steps [OF this] show ?thesis by (fastforce simp: legal_step_def)
next
  case (OP_DISPATCH p)
  with assms have "dispatch K p s = Inr s'" by simp
  from dispatch_steps [OF this] OP_DISPATCH show ?thesis by (fastforce simp: legal_step_def)
qed

lemma scan_queue_run_ops: "scan_queue K ps s = run_ops K (map OP_DISPATCH ps) s"
  by (induction ps arbitrary: s) (auto split: sum.splits)

text \<open>
  Claim C2. Whatever sequence of operations is executed from whatever state, every write of
  a task's state that it makes leaves the state as it is or moves it one step forward along
  NEW, READY, SCHEDULED, RUNNING, DONE, or takes it from DONE back to SCHEDULED; and each
  write that leaves DONE goes to SCHEDULED and is made by a step of the run loop on that
  task, taken when the task was DONE with a repeat policy other than ONCE.
\<close>

theorem state_transitions_ordered:
  assumes "run_ops K ops s = Inr s'"
  shows "\<exists>evs. events s' = events s @ evs
     \<and> (\<forall>p a b. EV_STATE p a b \<in> set evs \<longrightarrow>
           legal_step a b
           \<and> (a = TASK_STATE_DONE \<longrightarrow> b = TASK_STATE_SCHEDULED
                 \<and> (\<exists>ops1 ops2 s1 t. ops = ops1 @ OP_DISPATCH p # ops2
                        \<and> run_ops K ops1 s = Inr s1 \<and> tasks s1 p = Some t
                        \<and> state t = TASK_STATE_DONE \<and> repeat t \<noteq> TASK_REPEAT_ONCE K)))"
  using assms
proof (induction ops arbitrary: s)
  case Nil
  then show ?case by simp
next
  case (Cons x xs)
  from Cons.prems obtain s1 where x: "exec_op K x s = Inr s1" and xs: "run_ops K xs s1 = Inr s'"
    by (auto split: sum.splits)
  from exec_op_steps [OF x] obtain e1 where e1: "events s1 = events s @ e1"
    and l1: "\<forall>p a b. EV_STATE p a b \<in> set e1 \<longrightarrow>
           legal_step a b
           \<and> (a = TASK_STATE_DONE \<longrightarrow> b = TASK_STATE_SCHEDULED \<and> x = OP_DISPATCH p
                 \<and> (\<exists>t. tasks s p = Some t \<and> state t = TASK_STATE_DONE
                        \<and> repeat t \<noteq> TASK_REPEAT_ONCE K))"
    by blast
  from Cons.IH [OF xs] obtain e2 where e2: "events s' = events s1 @ e2"
    and l2: "\<forall>p a b. EV_STATE p a b \<in> set e2 \<longrightarrow>
           legal_step a b
           \<and> (a = TASK_STATE_DONE \<longrightarrow> b = TASK_STATE_SCHEDULED
                 \<and> (\<exists>ops1 ops2 s2 t. xs = ops1 @ OP_DISPATCH p # ops2
                        \<and> run_ops K ops1 s1 = Inr s2 \<and> tasks s2 p = Some t
                        \<and> state t = TASK_STATE_DONE \<and> repeat t \<noteq> TASK_REPEAT_ONCE K))"
    by blast
  have "\<forall>p a b. EV_STATE p a b \<in> set (e1 @ e2) \<longrightarrow>
           legal_step a b
           \<and> (a = TASK_STATE_DONE \<longrightarrow> b = TASK_STATE_SCHEDULED
                 \<and> (\<exists>ops1 ops2 s2 t. x # xs = ops1 @ OP_DISPATCH p # ops2
                        \<and> run_ops K ops1 s = Inr s2 \<and> tasks s2 p = Some t
                        \<and> state t = TASK_STATE_DONE \<and> repeat t \<noteq> TASK_REPEAT_ONCE K))"
  proof (intro allI impI)
    fix p a b assume "EV_STATE p a b \<in> set (e1 @ e2)"
    then consider (first) "EV_STATE p a b \<in> set e1" | (rest) "EV_STATE p a b \<in> set e2" by auto
    then show "legal_step a b
           \<and> (a = TASK_STATE_DONE \<longrightarrow> b = TASK_STATE_SCHEDULED
                 \<and> (\<exists>ops1 ops2 s2 t. x # xs = ops1 @ OP_DISPATCH p # ops2
                        \<and> run_ops K ops1 s = Inr s2 \<and> tasks s2 p = Some t
                        \<and> state t = TASK_STATE_DONE \<and> repeat t \<noteq> TASK_REPEAT_ONCE K))"
    proof cases
      case first
      with l1 have lg: "legal_step a b"
        and d: "a = TASK_STATE_DONE \<longrightarrow> b = TASK_STATE_SCHEDULED \<and> x = OP_DISPATCH p
                 \<and> (\<exists>t. tasks s p = Some t \<and> state t = TASK_STATE_DONE
                        \<and> repeat t \<noteq> TASK_REPEAT_ONCE K)"
        by blast+
      have "\<exists>ops1 ops2 s2 t. x # xs = ops1 @ OP_DISPATCH p # ops2
                        \<and> run_ops K ops1 s = Inr s2 \<and> tasks s2 p = Some t
                        \<and> state t = TASK_STATE_DONE \<and> repeat t \<noteq> TASK_REPEAT_ONCE K"
        if "a = TASK_STATE_DONE"
      proof -
        from d that obtain t where "x = OP_DISPATCH p" "tasks s p = Some t"
          "state t = TASK_STATE_DONE" "repeat t \<noteq> TASK_REPEAT_ONCE K" by blast
        then show ?thesis
          by (intro exI [of _ "[]"] exI [of _ xs] exI [of _ s] exI [of _ t]) simp
      qed
      with lg d show ?thesis by blast
    next
      case rest
      with l2 have lg: "legal_step a b"
        and d: "a = TASK_STATE_DONE \<longrightarrow> b = TASK_STATE_SCHEDULED
                 \<and> (\<exists>ops1 ops2 s2 t. xs = ops1 @ OP_DISPATCH p # ops2
                        \<and> run_ops K ops1 s1 = Inr s2 \<and> tasks s2 p = Some t
                        \<and> state t = TASK_STATE_DONE \<and> repeat t \<noteq> TASK_REPEAT_ONCE K)"
        by blast+
      have "\<exists>ops1 ops2 s2 t. x # xs = ops1 @ OP_DISPATCH p # ops2
                        \<and> run_ops K ops1 s = Inr s2 \<and> tasks s2 p = Some t
                        \<and> state t = TASK_STATE_DONE \<and> repeat t \<noteq> TASK_REPEAT_ONCE K"
        if "a = TASK_STATE_DONE"
      proof -
        from d that obtain ops1 ops2 s2 t where "xs = ops1 @ OP_DISPATCH p # ops2"
          "run_ops K ops1 s1 = Inr s2" "tasks s2 p = Some t"
          "state t = TASK_STATE_DONE" "repeat t \<noteq> TASK_REPEAT_ONCE K" by blast
        with x show ?thesis
          by (intro exI [of _ "x # ops1"] exI [of _ ops2] exI [of _ s2] exI [of _ t]) simp
      qed
      with lg d show ?thesis by blast
    qed
  qed
  with e1 e2 show ?case by (intro exI [of _ "e1 @ e2"]) simp
qed

theorem state_transitions_ordered_witness:
  "\<exists>s' evs. run_ops demo_platform [OP_DISPATCH 11, OP_DISPATCH 11] demo_counted = Inr s'
      \<and> events s' = events demo_counted @ evs
      \<and> EV_STATE 11 TASK_STATE_DONE TASK_STATE_SCHEDULED \<in> set evs
      \<and> (\<forall>p a b. EV_STATE p a b \<in> set evs \<longrightarrow> legal_step a b)"
proof -
  let ?t = "demo_kernel_task\<lparr>cpu := Some 100, state := TASK_STATE_SCHEDULED, repeat := 3\<rparr>"
  have t: "tasks demo_counted 11 = Some ?t"
    and c: "cpus demo_counted 100 = Some \<lparr>cpu_id = 0, task_queue = [11]\<rparr>"
    by (simp_all add: demo_counted_def demo_queued_def)
  have r1: "state ?t = TASK_STATE_SCHEDULED" "cpu ?t = Some 100" by simp_all
  let ?t1 = "?t\<lparr>exec_count := exec_count ?t + 1, result := invoke demo_platform ?t,
                state := TASK_STATE_DONE\<rparr>"
  let ?s1 = "demo_counted\<lparr>tasks := (tasks demo_counted)(11 \<mapsto> ?t1),
             events := events demo_counted @ start_msg \<lparr>cpu_id = 0, task_queue = [11]\<rparr> ?t @
               [EV_STATE 11 TASK_STATE_SCHEDULED TASK_STATE_RUNNING, EV_CALL 11,
                EV_STATE 11 TASK_STATE_RUNNING TASK_STATE_DONE]\<rparr>"
  have d1: "dispatch demo_platform 11 demo_counted = Inr ?s1"
    using run_task_scheduled [OF t r1 c, of demo_platform] by (simp add: dispatch_def t)
  have t1: "tasks ?s1 11 = Some ?t1" by simp
  have n1: "repeat ?t1 \<noteq> TASK_REPEAT_ONCE demo_platform"
    and n2: "repeat ?t1 \<noteq> TASK_REPEAT_LOOP demo_platform"
    by (simp_all add: demo_platform_def)
  have "\<exists>s'. dispatch demo_platform 11 ?s1 = Inr s'
          \<and> events s' = events ?s1 @ [EV_STATE 11 TASK_STATE_DONE TASK_STATE_SCHEDULED]"
    using requeue_count [OF t1 n1 n2] by (simp add: dispatch_def)
  then obtain s' where d2: "dispatch demo_platform 11 ?s1 = Inr s'"
    and e2: "events s' = events ?s1 @ [EV_STATE 11 TASK_STATE_DONE TASK_STATE_SCHEDULED]"
    by blast
  have r: "run_ops demo_platform [OP_DISPATCH 11, OP_DISPATCH 11] demo_counted = Inr s'"
    using d1 d2 by simp
  from state_transitions_ordered [OF r] obtain evs where e: "events s' = events demo_counted @ evs"
    and l: "\<forall>p a b. EV_STATE p a b \<in> set evs \<longrightarrow> legal_step a b"
    by blast
  from e e2 have "EV_STATE 11 TASK_STATE_DONE TASK_STATE_SCHEDULED \<in> set evs" by auto
  with r e l show ?thesis by blast
qed

subsection \<open>Waiting for a group\<close>

lemma wait_obs_later:
  "wait_for_task_state_obs fuel obs p st n = Some m \<Longrightarrow> n < m \<and> obs (m - 1) p = st"
proof (induction fuel arbitrary: n)
  case 0
  then show ?case by simp
next
  case (Suc fuel)
  show ?case
  proof (cases "obs n p = st")
    case True
    with Suc.prems show ?thesis by auto
  next
    case False
    with Suc.prems have "wait_for_task_state_obs fuel obs p st (Suc n) = Some m" by simp
    from Suc.IH [OF this] show ?thesis by simp
  qed
qed

lemma scan_group_busy:
  assumes "scan_group K fuel obs gids grp ps busy n = Some (busy', n')"
  shows "n \<le> n' \<and> (busy \<longrightarrow> busy')
       \<and> (\<not> busy \<longrightarrow> (\<not> busy' \<longleftrightarrow> all_done_from obs (matching K gids grp ps) n))
       \<and> (\<not> busy' \<longrightarrow> n' = n + length (matching K gids grp ps))"
  using assms
proof (induction ps arbitrary: busy n)
  case Nil
  then show ?case by (simp add: matching_def)
next
  case (Cons p ps)
  show ?case
  proof (cases "grp \<noteq> TASK_GROUP_ALL K \<and> gids p \<noteq> grp")
    case True
    with Cons.prems have "scan_group K fuel obs gids grp ps busy n = Some (busy', n')" by simp
    from Cons.IH [OF this] True show ?thesis by (simp add: matching_def)
  next
    case False
    then have m: "matching K gids grp (p # ps) = p # matching K gids grp ps"
      by (auto simp: matching_def)
    show ?thesis
    proof (cases "obs n p = TASK_STATE_DONE")
      case True
      with False Cons.prems have "scan_group K fuel obs gids grp ps busy (Suc n) = Some (busy', n')"
        by (auto split: if_splits)
      from Cons.IH [OF this] True show ?thesis unfolding m by auto
    next
      case nd: False
      with False Cons.prems obtain k where
        w: "wait_for_task_state_obs fuel obs p TASK_STATE_DONE (Suc n) = Some k"
        and r: "scan_group K fuel obs gids grp ps True k = Some (busy', n')"
        by (auto split: option.splits if_splits)
      from wait_obs_later [OF w] Cons.IH [OF r] nd show ?thesis unfolding m by auto
    qed
  qed
qed

lemma scan_group_all_done:
  assumes "all_done_from obs (matching K gids grp ps) n"
  shows "scan_group K fuel obs gids grp ps busy n
           = Some (busy, n + length (matching K gids grp ps))"
  using assms
  by (induction ps arbitrary: n) (auto simp: matching_def)

lemma wait_obs_frozen:
  assumes "\<forall>k. obs k p = cur"
  shows "wait_for_task_state_obs fuel obs p st n
           = (if cur = st \<and> 0 < fuel then Some (Suc n) else None)"
  using assms by (induction fuel arbitrary: n) auto

lemma wait_for_task_group_prompt:
  assumes "all_done_from obs (matching K gids grp (queue_at n)) n"
  shows "wait_for_task_group K (Suc fuel) obs gids queue_at grp n
           = Some (n + length (matching K gids grp (queue_at n)))"
  by (simp add: scan_group_all_done [OF assms])

lemma demo_wait:
  "wait_for_task_group demo_platform (Suc (Suc (Suc 0))) demo_obs demo_gids (\<lambda>n. [11, 12]) 0 0 = Some 6"
  by (simp add: demo_obs_def demo_gids_def demo_platform_def)

text \<open>
  Claim C3. Whenever \<open>wait_for_task_group\<close> returns, its last traversal of the queue started
  at some read \<open>n0\<close>, read every task of the group (every task of the queue for the wildcard
  group) as DONE, one read each, found nothing pending and ended the wait; and when the
  traversal that starts the wait reads some task of the group as not DONE, that traversal
  ends with the busy flag set and the wait goes on with another traversal, from which the
  same holds.
\<close>

theorem wait_for_task_group_returns:
  assumes "wait_for_task_group K fuel obs gids queue_at grp n = Some m"
  shows "(\<exists>n0 f0. n \<le> n0
            \<and> scan_group K f0 obs gids grp (queue_at n0) False n0 = Some (False, m)
            \<and> all_done_from obs (matching K gids grp (queue_at n0)) n0
            \<and> m = n0 + length (matching K gids grp (queue_at n0)))
       \<and> (\<not> all_done_from obs (matching K gids grp (queue_at n)) n \<longrightarrow>
            (\<exists>n'. scan_group K fuel obs gids grp (queue_at n) False n = Some (True, n')
                \<and> wait_for_task_group K (fuel - 1) obs gids queue_at grp n' = Some m))"
proof
  show "\<exists>n0 f0. n \<le> n0
            \<and> scan_group K f0 obs gids grp (queue_at n0) False n0 = Some (False, m)
            \<and> all_done_from obs (matching K gids grp (queue_at n0)) n0
            \<and> m = n0 + length (matching K gids grp (queue_at n0))"
    using assms
  proof (induction fuel arbitrary: n)
    case 0
    then show ?case by simp
  next
    case (Suc fuel)
    from Suc.prems obtain busy n' where
      sc: "scan_group K (Suc fuel) obs gids grp (queue_at n) False n = Some (busy, n')"
      by (auto split: option.splits)
    note sb = scan_group_busy [OF sc]
    show ?case
    proof (cases busy)
      case True
      with Suc.prems sc have "wait_for_task_group K fuel obs gids queue_at grp n' = Some m"
        by simp
      from Suc.IH [OF this] obtain n0 f0 where "n' \<le> n0"
        and r: "scan_group K f0 obs gids grp (queue_at n0) False n0 = Some (False, m)"
          "all_done_from obs (matching K gids grp (queue_at n0)) n0"
          "m = n0 + length (matching K gids grp (queue_at n0))"
        by blast
      moreover from sb have "n \<le> n'" by simp
      ultimately have "n \<le> n0" by simp
      with r show ?thesis by blast
    next
      case False
      with Suc.prems sc have "m = n'" by simp
      with sc sb False show ?thesis
        by (intro exI [of _ n] exI [of _ "Suc fuel"]) simp
    qed
  qed
next
  show "\<not> all_done_from obs (matching K gids grp (queue_at n)) n \<longrightarrow>
            (\<exists>n'. scan_group K fuel obs gids grp (queue_at n) False n = Some (True, n')
                \<and> wait_for_task_group K (fuel - 1) obs gids queue_at grp n' = Some m)"
  proof
    assume nd: "\<not> all_done_from obs (matching K gids grp (queue_at n)) n"
    from assms obtain f where f: "fuel = Suc f" by (cases fuel) auto
    with assms obtain busy n' where
      sc: "scan_group K (Suc f) obs gids grp (queue_at n) False n = Some (busy, n')"
      by (auto split: option.splits)
    from scan_group_busy [OF sc] nd have "busy" by auto
    with assms f sc show "\<exists>n'. scan_group K fuel obs gids grp (queue_at n) False n = Some (True, n')
                \<and> wait_for_task_group K (fuel - 1) obs gids queue_at grp n' = Some m"
      by simp
  qed
qed

theorem wait_for_task_group_returns_witness:
  "wait_for_task_group demo_platform (Suc (Suc (Suc 0))) demo_obs demo_gids (\<lambda>n. [11, 12]) 0 0 = Some 6
    \<and> (\<exists>n0. all_done_from demo_obs (matching demo_platform demo_gids 0 [11, 12]) n0 \<and> 6 = n0 + 2)
    \<and> \<not> all_done_from demo_obs (matching demo_platform demo_gids 0 [11, 12]) 0"
proof -
  have m: "matching demo_platform demo_gids 0 [11, 12] = [11, 12]"
    by (simp add: matching_def demo_platform_def)
  from wait_for_task_group_returns [OF demo_wait] m
  have "\<exists>n0. all_done_from demo_obs (matching demo_platform demo_gids 0 [11, 12]) n0 \<and> 6 = n0 + 2"
    by auto
  moreover have "\<not> all_done_from demo_obs (matching demo_platform demo_gids 0 [11, 12]) 0"
    unfolding m by (simp add: demo_obs_def)
  ultimately show ?thesis using demo_wait by blast
qed

end
